theory Spec2Isabelle
  imports Main "HOL-Library.Word"
begin

section \<open>Memory statistics read from /proc/meminfo (memstats_linux.go)\<close>

text \<open>
  The repository has one routine, \<^verbatim>\<open>getMemStats\<close>. It opens \<^verbatim>\<open>/proc/meminfo\<close>, reads it
  line by line with a \<^verbatim>\<open>bufio.Scanner\<close>, matches every line against one regular
  expression, parses the captured digits with \<^verbatim>\<open>strconv.ParseUint\<close>, stores the value in a
  \<^verbatim>\<open>map[string]uint64\<close> and finally adds three derived entries.

  The embedding follows the routine statement by statement. The standard-library calls it
  makes (\<^verbatim>\<open>os.Open\<close>, \<^verbatim>\<open>bufio.Scanner\<close> with \<^verbatim>\<open>bufio.ScanLines\<close>,
  \<^verbatim>\<open>regexp.FindStringSubmatch\<close>, \<^verbatim>\<open>strconv.ParseUint\<close>, \<^verbatim>\<open>fmt.Println\<close>) are embedded as
  functions of their own, each as far as the routine uses it. Go strings are byte
  sequences; they are \<^typ>\<open>string\<close> here (a \<^typ>\<open>char\<close> is one byte).
\<close>

subsection \<open>Data model\<close>

type_synonym uint64 = "64 word"

text \<open>\<^verbatim>\<open>type MemStats map[string]uint64\<close>\<close>

type_synonym MemStats = "string \<rightharpoonup> uint64"

text \<open>
  The index expression \<^verbatim>\<open>m[k]\<close> of a Go map used as a value: the stored value, or the
  zero value of the element type when the key is absent.
\<close>

definition map_index :: "MemStats \<Rightarrow> string \<Rightarrow> uint64" where
  "map_index m k = (case m k of None \<Rightarrow> 0 | Some v \<Rightarrow> v)"

text \<open>
  The two kinds of \<^verbatim>\<open>error\<close> value the routine meets: the \<^verbatim>\<open>*os.PathError\<close> of a failed
  \<^verbatim>\<open>os.Open\<close> (operation, path, errno) and the \<^verbatim>\<open>*strconv.NumError\<close> of a failed
  \<^verbatim>\<open>ParseUint\<close> (function, input, cause).
\<close>

datatype strconv_cause = ErrSyntax | ErrRange

datatype error = PathError string string nat | NumError string string strconv_cause

text \<open>
  The part of the world the routine touches. \<open>proc\<close> gives, for a path, what opening and
  reading it yields: an errno when \<^verbatim>\<open>open(2)\<close> fails, otherwise the bytes that the reads
  deliver. \<open>stdout\<close> is the sequence of values handed to \<^verbatim>\<open>fmt.Println\<close> so far.
\<close>

record world =
  proc :: "string \<Rightarrow> nat + string"
  stdout :: "error list"

subsection \<open>\<^verbatim>\<open>os.Open\<close>\<close>

definition os_Open :: "world \<Rightarrow> string \<Rightarrow> error + string" where
  "os_Open w name =
     (case proc w name of
        Inl errno \<Rightarrow> Inl (PathError ''open'' name errno)
      | Inr bytes \<Rightarrow> Inr bytes)"

subsection \<open>\<^verbatim>\<open>bufio.Scanner\<close> with \<^verbatim>\<open>bufio.ScanLines\<close>\<close>

definition newline :: char where
  "newline = CHR 0x0A"

definition carriage_return :: char where
  "carriage_return = CHR 0x0D"

text \<open>\<^verbatim>\<open>bytes.IndexByte\<close>: the index of the first occurrence of a byte, if any.\<close>

fun IndexByte :: "string \<Rightarrow> char \<Rightarrow> nat option" where
  "IndexByte [] c = None"
| "IndexByte (b # bs) c =
     (if b = c then Some 0
      else case IndexByte bs c of None \<Rightarrow> None | Some i \<Rightarrow> Some (Suc i))"

text \<open>\<^verbatim>\<open>dropCR\<close> drops one terminal carriage return from the data.\<close>

definition dropCR :: "string \<Rightarrow> string" where
  "dropCR data =
     (if 0 < length data \<and> data ! (length data - 1) = carriage_return
      then take (length data - 1) data else data)"

text \<open>
  \<^verbatim>\<open>bufio.ScanLines(data, atEOF)\<close> returns how far to advance and the token, if there is
  one: the text up to the first newline, or at end of input the non-empty remainder.
  \<open>None\<close> is the \<^verbatim>\<open>nil\<close> token (a request for more data, or nothing left).
\<close>

definition ScanLines :: "string \<Rightarrow> bool \<Rightarrow> nat \<times> string option" where
  "ScanLines data atEOF =
     (if atEOF \<and> length data = 0 then (0, None)
      else case IndexByte data newline of
             Some i \<Rightarrow> (i + 1, Some (dropCR (take i data)))
           | None \<Rightarrow> if atEOF then (length data, Some (dropCR data)) else (0, None))"

text \<open>
  The scanner's buffer grows up to \<^verbatim>\<open>MaxScanTokenSize\<close> bytes and always starts at the
  beginning of the token being read. \<^verbatim>\<open>Scan\<close> therefore sees at most that many bytes of
  the remaining input; it learns that the input has ended only when the remaining input
  does not fill the buffer. When the full buffer holds no token, \<^verbatim>\<open>Scan\<close> records
  \<^verbatim>\<open>ErrTooLong\<close> and returns false, as it does at the end of the input. The routine never
  looks at \<^verbatim>\<open>scanner.Err()\<close>, so both ways of stopping look the same to it.
\<close>

definition MaxScanTokenSize :: nat where
  "MaxScanTokenSize = 64 * 1024"

text \<open>
  \<open>Scan input\<close> is one call of \<^verbatim>\<open>scanner.Scan()\<close> on the remaining input: \<open>None\<close> when it
  returns false, otherwise the token (\<^verbatim>\<open>scanner.Text()\<close>) and the input left after it.
\<close>

definition Scan :: "string \<Rightarrow> (string \<times> string) option" where
  "Scan input =
     (case ScanLines (take MaxScanTokenSize input) (length input < MaxScanTokenSize) of
        (advance, Some token) \<Rightarrow> Some (token, drop advance input)
      | (advance, None) \<Rightarrow> None)"

subsection \<open>The regular expression\<close>

text \<open>
  The syntax tree of a regular expression, with the operators of \<^verbatim>\<open>regexp/syntax\<close> that
  the routine's pattern uses. Repetition is needed for a character class only.
\<close>

datatype charclass = Perl_space | Perl_digit

datatype regexp =
    Literal string
  | BeginText
  | Star charclass
  | Plus charclass
  | Concat regexp regexp
  | Alternate regexp regexp
  | Capture nat regexp

text \<open>
  \<^verbatim>\<open>\s\<close> is \<^verbatim>\<open>[\t\n\f\r ]\<close> and \<^verbatim>\<open>\d\<close> is \<^verbatim>\<open>[0-9]\<close> in Go's syntax.
\<close>

fun in_class :: "charclass \<Rightarrow> char \<Rightarrow> bool" where
  "in_class Perl_space c = (c \<in> set [CHR 0x09, CHR 0x0A, CHR 0x0C, CHR 0x0D, CHR 0x20])"
| "in_class Perl_digit c = (48 \<le> (of_char c :: nat) \<and> (of_char c :: nat) \<le> 57)"

text \<open>
  Go's \<^verbatim>\<open>regexp\<close> returns the match that a backtracking search finds first
  (leftmost-first: an earlier alternative wins, a repetition takes as much as it can and
  gives back one character at a time). \<open>run r s i c\<close> lists, in that order of preference,
  every way \<open>r\<close> matches the text \<open>s\<close> from position \<open>i\<close>: the position after the match and
  the captures \<open>c\<close> extended by the groups closed on the way.
\<close>

type_synonym captures = "nat \<rightharpoonup> string"

fun run :: "regexp \<Rightarrow> string \<Rightarrow> nat \<Rightarrow> captures \<Rightarrow> (nat \<times> captures) list" where
  "run (Literal l) s i c =
     (if take (length l) (drop i s) = l then [(i + length l, c)] else [])"
| "run BeginText s i c = (if i = 0 then [(i, c)] else [])"
| "run (Star cl) s i c =
     map (\<lambda>k. (i + k, c)) (rev [0 ..< Suc (length (takeWhile (in_class cl) (drop i s)))])"
| "run (Plus cl) s i c =
     map (\<lambda>k. (i + k, c)) (rev [1 ..< Suc (length (takeWhile (in_class cl) (drop i s)))])"
| "run (Concat r1 r2) s i c = concat (map (\<lambda>(j, c'). run r2 s j c') (run r1 s i c))"
| "run (Alternate r1 r2) s i c = run r1 s i c @ run r2 s i c"
| "run (Capture n r) s i c =
     map (\<lambda>(j, c'). (j, c'(n \<mapsto> take (j - i) (drop i s)))) (run r s i c)"

text \<open>The number of capturing groups (\<^verbatim>\<open>NumSubexp\<close>).\<close>

fun NumSubexp :: "regexp \<Rightarrow> nat" where
  "NumSubexp (Concat r1 r2) = NumSubexp r1 + NumSubexp r2"
| "NumSubexp (Alternate r1 r2) = NumSubexp r1 + NumSubexp r2"
| "NumSubexp (Capture n r) = Suc (NumSubexp r)"
| "NumSubexp r = 0"

text \<open>
  \<^verbatim>\<open>FindStringSubmatch\<close>: the leftmost match, as the slice holding the matched text
  followed by the text of each group (empty for a group that took no part); \<open>None\<close> is the
  \<^verbatim>\<open>nil\<close> slice of no match. Start positions are tried from the left.
\<close>

definition FindStringSubmatch :: "regexp \<Rightarrow> string \<Rightarrow> string list option" where
  "FindStringSubmatch r s =
     (case concat (map (\<lambda>i. map (\<lambda>(j, c). (i, j, c)) (run r s i Map.empty))
                       [0 ..< Suc (length s)]) of
        [] \<Rightarrow> None
      | (i, j, c) # _ \<Rightarrow>
          Some (take (j - i) (drop i s) #
                map (\<lambda>n. case c n of None \<Rightarrow> [] | Some t \<Rightarrow> t) [1 ..< Suc (NumSubexp r)]))"

text \<open>
  The pattern of the routine:
  \<^verbatim>\<open>^((?:Mem|Swap)(?:Total|Free)|Buffers|Cached|SwapCached|Active|Inactive|Dirty|Writeback|Mapped|Slab|Commit(?:Limit|ted_AS)):\s*(\d+)\<close>
\<close>

definition field_names :: regexp where
  "field_names =
     Alternate (Concat (Alternate (Literal ''Mem'') (Literal ''Swap''))
                       (Alternate (Literal ''Total'') (Literal ''Free'')))
    (Alternate (Literal ''Buffers'')
    (Alternate (Literal ''Cached'')
    (Alternate (Literal ''SwapCached'')
    (Alternate (Literal ''Active'')
    (Alternate (Literal ''Inactive'')
    (Alternate (Literal ''Dirty'')
    (Alternate (Literal ''Writeback'')
    (Alternate (Literal ''Mapped'')
    (Alternate (Literal ''Slab'')
               (Concat (Literal ''Commit'')
                       (Alternate (Literal ''Limit'') (Literal ''ted_AS''))))))))))))"

definition re :: regexp where
  "re = Concat BeginText
       (Concat (Capture 1 field_names)
       (Concat (Literal '':'')
       (Concat (Star Perl_space)
               (Capture 2 (Plus Perl_digit)))))"

subsection \<open>\<^verbatim>\<open>strconv.ParseUint(s, 10, 64)\<close>\<close>

text \<open>
  \<^verbatim>\<open>cutoff\<close> is the smallest number whose product with the base overflows;
  \<^verbatim>\<open>maxVal\<close> is the largest value of the bit size.
\<close>

definition cutoff :: uint64 where
  "cutoff = 18446744073709551615 div 10 + 1"

definition maxVal :: uint64 where
  "maxVal = 18446744073709551615"

text \<open>\<^verbatim>\<open>lower(c)\<close> is \<^verbatim>\<open>c | ('x' - 'X')\<close>, on the byte's number.\<close>

definition lower :: "nat \<Rightarrow> nat" where
  "lower c = or c 32"

text \<open>
  The digit loop of \<^verbatim>\<open>ParseUint\<close> for base 10 (where an underscore is no digit
  separator). A byte is its number; the byte subtractions below stay in range by the
  guards in front of them. The result is the pair of Go's two results.
\<close>

fun ParseUint_loop :: "string \<Rightarrow> string \<Rightarrow> uint64 \<Rightarrow> uint64 \<times> error option" where
  "ParseUint_loop s0 [] n = (n, None)"
| "ParseUint_loop s0 (ch # rest) n =
     (let c = (of_char ch :: nat) in
      if \<not> (48 \<le> c \<and> c \<le> 57) \<and> \<not> (97 \<le> lower c \<and> lower c \<le> 122)
      then (0, Some (NumError ''ParseUint'' s0 ErrSyntax))
      else
        let d = (if 48 \<le> c \<and> c \<le> 57 then c - 48 else lower c - 97 + 10) in
        if d \<ge> 10 then (0, Some (NumError ''ParseUint'' s0 ErrSyntax))
        else if n \<ge> cutoff then (maxVal, Some (NumError ''ParseUint'' s0 ErrRange))
        else
          let n10 = n * 10;
              n1 = n10 + of_nat d
          in if n1 < n10 \<or> n1 > maxVal
             then (maxVal, Some (NumError ''ParseUint'' s0 ErrRange))
             else ParseUint_loop s0 rest n1)"

definition ParseUint :: "string \<Rightarrow> uint64 \<times> error option" where
  "ParseUint s =
     (if s = [] then (0, Some (NumError ''ParseUint'' s ErrSyntax))
      else ParseUint_loop s s 0)"

subsection \<open>\<^verbatim>\<open>getMemStats\<close>\<close>

text \<open>
  The state of the scanning loop: the map being filled and the standard output. One
  round of the loop body on the line \<^verbatim>\<open>scanner.Text()\<close>:
\<close>

record scan_state =
  memStats :: MemStats
  out :: "error list"

definition loop_body :: "string \<Rightarrow> scan_state \<Rightarrow> scan_state" where
  "loop_body line st =
     (case FindStringSubmatch re line of
        None \<Rightarrow> st
      | Some stat \<Rightarrow>
          let key = stat ! 1 in
          (case ParseUint (stat ! 2) of
             (value, Some err) \<Rightarrow> st\<lparr>out := out st @ [err]\<rparr>
           | (value, None) \<Rightarrow> st\<lparr>memStats := (memStats st)(key \<mapsto> value)\<rparr>))"

text \<open>
  \<^verbatim>\<open>for scanner.Scan() { ... }\<close> on the remaining input. Every successful \<^verbatim>\<open>Scan\<close>
  consumes at least one byte, so the loop ends.
\<close>

function scan_loop :: "string \<Rightarrow> scan_state \<Rightarrow> scan_state" where
  "scan_loop input st =
     (case Scan input of
        None \<Rightarrow> st
      | Some (line, rest) \<Rightarrow> scan_loop rest (loop_body line st))"
  by pat_completeness auto
termination
proof (relation "measure (\<lambda>(input, st). length input)")
  show "wf (measure (\<lambda>(input, st). length input))"
    by simp
next
  fix input :: string and st :: scan_state and x line rest
  assume scanned: "Scan input = Some x" and x: "(line, rest) = x"
  have index: "i < length data" if "IndexByte data c = Some i" for data c i
    using that by (induction data arbitrary: i) (auto split: if_splits option.splits)
  have "length rest < length input"
    using scanned x index [of "take MaxScanTokenSize input" newline]
    by (auto simp: Scan_def ScanLines_def split: if_splits option.splits)
  then show "((rest, loop_body line st), (input, st)) \<in> measure (\<lambda>(input, st). length input)"
    by simp
qed

text \<open>
  The routine. Its two results are the pair (\<open>None\<close> is \<^verbatim>\<open>nil\<close>); the world comes back
  with what the loop printed. The deferred \<^verbatim>\<open>file.Close()\<close> changes nothing this
  embedding observes.
\<close>

definition getMemStats :: "world \<Rightarrow> (MemStats option \<times> error option) \<times> world" where
  "getMemStats w =
     (case os_Open w ''/proc/meminfo'' of
        Inl err \<Rightarrow> ((None, Some err), w)
      | Inr file \<Rightarrow>
          let st = scan_loop file \<lparr>memStats = Map.empty, out = stdout w\<rparr>;
              m0 = memStats st;
              m1 = m0(''MemUsed'' \<mapsto> map_index m0 ''MemTotal'' - map_index m0 ''MemFree'');
              m2 = m1(''SwapUsed'' \<mapsto> map_index m1 ''SwapTotal'' - map_index m1 ''SwapFree'');
              m3 = m2(''RealFree'' \<mapsto>
                     map_index m2 ''MemFree'' + map_index m2 ''Buffers'' + map_index m2 ''Cached'')
          in ((Some m3, None), w\<lparr>stdout := out st\<rparr>))"

section \<open>Notions used to state and prove the properties\<close>

text \<open>
  The field names that the first group of the pattern can capture, in the order of its
  alternatives.
\<close>

definition fields :: "string list" where
  "fields = [''MemTotal'', ''MemFree'', ''SwapTotal'', ''SwapFree'', ''Buffers'', ''Cached'',
     ''SwapCached'', ''Active'', ''Inactive'', ''Dirty'', ''Writeback'', ''Mapped'', ''Slab'',
     ''CommitLimit'', ''Committed_AS'']"

text \<open>
  The numeric portion of the text that follows the colon of a line: the longest run of
  decimal digits after the longest run of whitespace.
\<close>

definition numeric_portion :: "string \<Rightarrow> string" where
  "numeric_portion t = takeWhile (in_class Perl_digit) (dropWhile (in_class Perl_space) t)"

text \<open>
  The line \<open>s\<close> starts with the name \<open>k\<close> and a colon, and digits follow the whitespace
  after the colon.
\<close>

definition matches_field :: "string \<Rightarrow> string \<Rightarrow> bool" where
  "matches_field s k \<longleftrightarrow>
     take (Suc (length k)) s = k @ '':'' \<and> numeric_portion (drop (Suc (length k)) s) \<noteq> []"

text \<open>The number that a sequence of decimal digits denotes.\<close>

definition decimal_from :: "nat \<Rightarrow> string \<Rightarrow> nat" where
  "decimal_from n ds = foldl (\<lambda>n ch. 10 * n + (of_char ch - 48)) n ds"

definition decimal :: "string \<Rightarrow> nat" where
  "decimal ds = decimal_from 0 ds"

text \<open>
  The specification's description of a recognized line, in its words: one of the field
  names at the start of the line, immediately followed by a colon, optional whitespace
  and one or more decimal digits; what follows the digits is ignored. The digit sequence
  is the whole number (no digit follows it). Whitespace is what \<^verbatim>\<open>\s\<close> accepts.
\<close>

definition recognized_line :: "string \<Rightarrow> string \<Rightarrow> string \<Rightarrow> bool" where
  "recognized_line line key digits \<longleftrightarrow>
     key \<in> set fields \<and> digits \<noteq> [] \<and> (\<forall>ch\<in>set digits. in_class Perl_digit ch) \<and>
     (\<exists>ws rest. line = key @ '':'' @ ws @ digits @ rest \<and>
        (\<forall>ch\<in>set ws. in_class Perl_space ch) \<and>
        (rest = [] \<or> \<not> in_class Perl_digit (hd rest)))"

text \<open>
  What one round of the loop body stores for a line: the key and the value of the
  assignment \<^verbatim>\<open>memStats[key] = value\<close> when the round reaches it, \<open>None\<close> when the round
  ends at one of the two \<^verbatim>\<open>continue\<close> statements.
\<close>

definition line_entry :: "string \<Rightarrow> (string \<times> uint64) option" where
  "line_entry line =
     (case FindStringSubmatch re line of
        None \<Rightarrow> None
      | Some stat \<Rightarrow>
          (case ParseUint (stat ! 2) of
             (value, Some err) \<Rightarrow> None
           | (value, None) \<Rightarrow> Some (stat ! 1, value)))"

text \<open>
  The lines that the loop receives from the scanner, in order: the tokens of the
  successive calls of \<^verbatim>\<open>scanner.Scan()\<close> until it returns false.
\<close>

function Scanner_lines :: "string \<Rightarrow> string list" where
  "Scanner_lines input =
     (case Scan input of
        None \<Rightarrow> []
      | Some (line, rest) \<Rightarrow> line # Scanner_lines rest)"
  by pat_completeness auto
termination
proof (relation "measure length")
  show "wf (measure length)"
    by simp
next
  fix input :: string and x line rest
  assume scanned: "Scan input = Some x" and x: "(line, rest) = x"
  have index: "i < length data" if "IndexByte data c = Some i" for data c i
    using that by (induction data arbitrary: i) (auto split: if_splits option.splits)
  have "length rest < length input"
    using scanned x index [of "take MaxScanTokenSize input" newline]
    by (auto simp: Scan_def ScanLines_def split: if_splits option.splits)
  then show "(rest, input) \<in> measure length"
    by simp
qed
declare scan_loop.simps [simp del]

text \<open>The effect of one round of the loop on the map, and the assignments after the loop.\<close>

definition store_line :: "MemStats \<Rightarrow> string \<Rightarrow> MemStats" where
  "store_line m line = (case line_entry line of None \<Rightarrow> m | Some (k, v) \<Rightarrow> m(k \<mapsto> v))"

definition with_derived :: "MemStats \<Rightarrow> MemStats" where
  "with_derived m0 =
     (let m1 = m0(''MemUsed'' \<mapsto> map_index m0 ''MemTotal'' - map_index m0 ''MemFree'');
          m2 = m1(''SwapUsed'' \<mapsto> map_index m1 ''SwapTotal'' - map_index m1 ''SwapFree'')
      in m2(''RealFree'' \<mapsto>
              map_index m2 ''MemFree'' + map_index m2 ''Buffers'' + map_index m2 ''Cached''))"

text \<open>A text whose lines are the given ones, each ended by a newline.\<close>

definition join_lines :: "string list \<Rightarrow> string" where
  "join_lines ls = concat (map (\<lambda>l. l @ [newline]) ls)"

text \<open>
  The lines of a text: the text is cut at every newline, and what follows the last
  newline is a line when it is not empty. The newline is not part of the line.
\<close>

function source_lines :: "string \<Rightarrow> string list" where
  "source_lines s =
     (if s = [] then []
      else takeWhile (\<lambda>ch. ch \<noteq> newline) s #
           (case dropWhile (\<lambda>ch. ch \<noteq> newline) s of
              [] \<Rightarrow> []
            | ch # rest \<Rightarrow> source_lines rest))"
  by pat_completeness auto
termination
proof (relation "measure length")
  show "wf (measure length)"
    by simp
next
  fix s :: string and ch rest
  assume "dropWhile (\<lambda>ch. ch \<noteq> newline) s = ch # rest"
  then have "length (ch # rest) \<le> length s"
    using length_dropWhile_le [of "\<lambda>ch. ch \<noteq> newline" s] by simp
  then show "(rest, s) \<in> measure length"
    by simp
qed

text \<open>A line without a newline that fills the scanner's buffer.\<close>

definition over_long_line :: string where
  "over_long_line = replicate MaxScanTokenSize (CHR ''x'')"

text \<open>
  The lines of the source that the loop reads: its lines up to, and not including, the
  first line of 65536 bytes or more. The scanner gives up at such a line, and the loop
  ends there as it does at the end of the source.
\<close>

definition scanned_lines :: "string \<Rightarrow> string list" where
  "scanned_lines content =
     takeWhile (\<lambda>l. length l < 65536) (source_lines content)"


text \<open>
  Auxiliary notions for the proofs about the pattern: the matches of a list of literal
  alternatives, the words of an expression built from literals, concatenation and
  alternation only, and the part of the pattern after the first group.
\<close>

definition lit_results :: "string list \<Rightarrow> string \<Rightarrow> nat \<Rightarrow> captures \<Rightarrow> (nat \<times> captures) list" where
  "lit_results ks s i c =
     map (\<lambda>k. (i + length k, c)) (filter (\<lambda>k. take (length k) (drop i s) = k) ks)"

fun words :: "regexp \<Rightarrow> string list" where
  "words (Literal l) = [l]"
| "words (Alternate a b) = words a @ words b"
| "words (Concat a b) = concat (map (\<lambda>x. map (\<lambda>y. x @ y) (words b)) (words a))"
| "words r = []"

fun plain :: "regexp \<Rightarrow> bool" where
  "plain (Literal l) = True"
| "plain (Alternate a b) = (plain a \<and> plain b)"
| "plain (Concat a b) = (plain a \<and> plain b)"
| "plain r = False"

definition tail_re :: regexp where
  "tail_re = Concat (Literal '':'') (Concat (Star Perl_space) (Capture 2 (Plus Perl_digit)))"

section \<open>The pattern\<close>

text \<open>
  The matches of the alternatives of field names, then of the rest of the pattern, and from
  them what \<^verbatim>\<open>FindStringSubmatch\<close> returns for the routine's pattern on any line.
\<close>

lemma take_append_eq:
  "take (length (a @ b)) t = a @ b \<longleftrightarrow>
   take (length a) t = a \<and> take (length b) (drop (length a) t) = b"
proof
  assume h: "take (length (a @ b)) t = a @ b"
  have "take (length a) (take (length (a @ b)) t) = take (length a) (a @ b)"
    using h by simp
  then have 1: "take (length a) t = a" by simp
  have "drop (length a) (take (length (a @ b)) t) = drop (length a) (a @ b)"
    using h by simp
  then have 2: "take (length b) (drop (length a) t) = b"
    by (simp add: drop_take)
  from 1 2 show "take (length a) t = a \<and> take (length b) (drop (length a) t) = b" by simp
next
  assume h: "take (length a) t = a \<and> take (length b) (drop (length a) t) = b"
  have "take (length a + length b) t = take (length a) t @ take (length b) (drop (length a) t)"
    by (rule take_add)
  with h show "take (length (a @ b)) t = a @ b" by simp
qed

lemma lit_results_append:
  "lit_results (ks @ ks') s i c = lit_results ks s i c @ lit_results ks' s i c"
  by (simp add: lit_results_def)

lemma lit_results_prepend:
  "lit_results (map (\<lambda>y. x @ y) ks) s i c =
     (if take (length x) (drop i s) = x then lit_results ks s (i + length x) c else [])"
proof (induction ks)
  case Nil
  then show ?case by (simp add: lit_results_def)
next
  case (Cons k ks)
  have "take (length (x @ k)) (drop i s) = x @ k \<longleftrightarrow>
        take (length x) (drop i s) = x \<and> take (length k) (drop (i + length x) s) = k"
    using take_append_eq [of x k "drop i s"] by (simp add: add.commute)
  with Cons show ?case
    by (auto simp: lit_results_def)
qed

lemma run_lit_results:
  "concat (map (\<lambda>(j, c'). lit_results ks' s j c') (lit_results ks s i c)) =
   lit_results (concat (map (\<lambda>x. map (\<lambda>y. x @ y) ks') ks)) s i c"
proof (induction ks)
  case Nil
  then show ?case by (simp add: lit_results_def)
next
  case (Cons k ks)
  have "lit_results (k # ks) s i c = lit_results [k] s i c @ lit_results ks s i c"
    using lit_results_append [of "[k]" ks] by simp
  then show ?case
    using Cons by (simp add: lit_results_append lit_results_prepend) (simp add: lit_results_def)
qed

lemma run_plain: "plain r \<Longrightarrow> run r s i c = lit_results (words r) s i c"
proof (induction r arbitrary: i c)
  case (Literal l)
  then show ?case by (simp add: lit_results_def)
next
  case (Concat r1 r2)
  from Concat.prems have p: "plain r1" "plain r2" by simp_all
  have r2: "run r2 s = lit_results (words r2) s"
    by (intro ext) (rule Concat.IH(2) [OF p(2)])
  have "run (Concat r1 r2) s i c =
      concat (map (\<lambda>(j, c'). lit_results (words r2) s j c') (lit_results (words r1) s i c))"
    by (simp add: Concat.IH(1) [OF p(1)] r2)
  then show ?case by (simp add: run_lit_results)
next
  case (Alternate r1 r2)
  then show ?case by (simp add: lit_results_append)
qed simp_all

lemma words_field_names: "words field_names = fields"
  by (simp add: field_names_def fields_def)

lemma plain_field_names: "plain field_names"
  by (simp add: field_names_def)

lemma run_field_names: "run field_names s i c = lit_results fields s i c"
  using run_plain [OF plain_field_names] by (simp add: words_field_names)

lemma space_not_digit: "in_class Perl_space ch \<Longrightarrow> \<not> in_class Perl_digit ch"
  by auto

lemma takeWhile_digit_in_spaces:
  assumes "k < length (takeWhile (in_class Perl_space) t)"
  shows "takeWhile (in_class Perl_digit) (drop k t) = []"
proof -
  let ?w = "takeWhile (in_class Perl_space) t"
  have kt: "k < length t"
    using assms length_takeWhile_le [of "in_class Perl_space" t] by simp
  have "?w ! k \<in> set ?w" using assms by simp
  then have "in_class Perl_space (?w ! k)" by (rule set_takeWhileD [THEN conjunct2])
  moreover have "?w ! k = t ! k" using assms by (rule takeWhile_nth)
  ultimately have "\<not> in_class Perl_digit (t ! k)" using space_not_digit by simp
  moreover have "drop k t = t ! k # drop (Suc k) t"
    using kt by (simp add: Cons_nth_drop_Suc)
  ultimately show ?thesis by simp
qed

lemma run_Plus_digit_in_spaces:
  assumes "k < length (takeWhile (in_class Perl_space) (drop j s))"
  shows "run (Capture n (Plus Perl_digit)) s (j + k) c = []"
proof -
  have "takeWhile (in_class Perl_digit) (drop (j + k) s) = []"
    using takeWhile_digit_in_spaces [OF assms] by (simp add: add.commute)
  then show ?thesis by simp
qed

lemma run_tail:
  "run (Concat (Star Perl_space) (Capture n (Plus Perl_digit))) s j c =
     (let w = length (takeWhile (in_class Perl_space) (drop j s)) in
      map (\<lambda>k. (j + w + k, c(n \<mapsto> take k (drop (j + w) s))))
          (rev [1 ..< Suc (length (numeric_portion (drop j s)))]))"
proof -
  define w where "w = length (takeWhile (in_class Perl_space) (drop j s))"
  have drop_w: "drop (j + w) s = dropWhile (in_class Perl_space) (drop j s)"
    unfolding w_def by (metis add.commute drop_drop dropWhile_eq_drop)
  have below: "concat (map (\<lambda>k. run (Capture n (Plus Perl_digit)) s (j + k) c) (rev [0 ..< w])) = []"
    using run_Plus_digit_in_spaces [of _ j s n c] by (simp add: w_def)
  have "run (Concat (Star Perl_space) (Capture n (Plus Perl_digit))) s j c =
        concat (map (\<lambda>k. run (Capture n (Plus Perl_digit)) s (j + k) c) (rev [0 ..< Suc w]))"
    by (simp add: w_def comp_def del: run.simps(7) upt_Suc)
  also have "\<dots> = run (Capture n (Plus Perl_digit)) s (j + w) c"
    using below by simp
  also have "\<dots> = map (\<lambda>k. (j + w + k, c(n \<mapsto> take k (drop (j + w) s))))
          (rev [1 ..< Suc (length (numeric_portion (drop j s)))])"
    by (simp add: numeric_portion_def drop_w comp_def del: upt_Suc)
  finally show ?thesis by (simp add: w_def Let_def)
qed

lemma first_of_concat:
  "(case concat (map F (filter P ks)) of [] \<Rightarrow> None | x # xs \<Rightarrow> Some x) =
   (case find (\<lambda>k. P k \<and> F k \<noteq> []) ks of None \<Rightarrow> None | Some k \<Rightarrow> Some (hd (F k)))"
proof (induction ks)
  case Nil
  then show ?case by simp
next
  case (Cons k ks)
  then show ?case by (cases "F k") auto
qed

lemma run_re_positive: "0 < i \<Longrightarrow> run re s i c = []"
  by (simp add: re_def)

lemma run_re_zero:
  "run re s 0 c =
     concat (map (\<lambda>k. run tail_re s (length k) (c(1 \<mapsto> take (length k) s)))
                 (filter (\<lambda>k. take (length k) s = k) fields))"
proof -
  have 1: "run (Concat BeginText r) s 0 c = run r s 0 c" for r
    by simp
  have 2: "run (Concat (Capture 1 field_names) r) s 0 c =
      concat (map (\<lambda>k. run r s (length k) (c(1 \<mapsto> take (length k) s)))
                  (filter (\<lambda>k. take (length k) s = k) fields))" for r
    by (simp add: run_field_names lit_results_def comp_def)
  show ?thesis
    unfolding re_def tail_re_def by (simp only: 1 2)
qed

lemma run_tail_re_Nil:
  "run tail_re s j c = [] \<longleftrightarrow>
     \<not> (take 1 (drop j s) = '':'' \<and> numeric_portion (drop (Suc j) s) \<noteq> [])"
proof -
  have "run tail_re s j c =
      (if take 1 (drop j s) = '':''
       then run (Concat (Star Perl_space) (Capture 2 (Plus Perl_digit))) s (Suc j) c else [])"
    by (simp add: tail_re_def del: run.simps(3,4,7))
  then show ?thesis
    by (simp add: run_tail Let_def del: run.simps upt_Suc)
qed

lemma run_tail_re_hd:
  assumes "take 1 (drop j s) = '':''" and "numeric_portion (drop (Suc j) s) \<noteq> []"
  shows "\<exists>e. hd (run tail_re s j c) = (e, c(2 \<mapsto> numeric_portion (drop (Suc j) s)))"
proof -
  define w where "w = length (takeWhile (in_class Perl_space) (drop (Suc j) s))"
  define d where "d = length (numeric_portion (drop (Suc j) s))"
  have drop_w: "drop (Suc j + w) s = dropWhile (in_class Perl_space) (drop (Suc j) s)"
    unfolding w_def by (metis add.commute drop_drop dropWhile_eq_drop)
  have d: "0 < d" using assms(2) by (simp add: d_def)
  then have upt: "rev [Suc 0 ..< Suc d] = d # rev [Suc 0 ..< d]" by simp
  have "run tail_re s j c =
      run (Concat (Star Perl_space) (Capture 2 (Plus Perl_digit))) s (Suc j) c"
    using assms(1) by (simp add: tail_re_def del: run.simps(3,4,7))
  also have "\<dots> = map (\<lambda>k. (Suc j + w + k, c(2 \<mapsto> take k (drop (Suc j + w) s))))
          (rev [1 ..< Suc d])"
    by (simp add: run_tail Let_def w_def d_def del: run.simps upt_Suc)
  finally have "hd (run tail_re s j c) = (Suc j + w + d, c(2 \<mapsto> take d (drop (Suc j + w) s)))"
    by (simp add: upt del: upt_Suc)
  moreover have "take d (drop (Suc j + w) s) = numeric_portion (drop (Suc j) s)"
    unfolding d_def numeric_portion_def drop_w by (simp add: takeWhile_eq_take [symmetric])
  ultimately show ?thesis by auto
qed

lemma take_field_colon:
  "take (Suc (length k)) s = k @ '':'' \<longleftrightarrow>
     take (length k) s = k \<and> take 1 (drop (length k) s) = '':''"
  using take_append_eq [of k "'':''" s] by simp

lemma first_run_re:
  "(case run re s 0 c of [] \<Rightarrow> None | x # xs \<Rightarrow> Some x) =
   (case find (matches_field s) fields of
      None \<Rightarrow> None
    | Some k \<Rightarrow> Some (hd (run tail_re s (length k) (c(1 \<mapsto> take (length k) s)))))"
proof -
  have "(\<lambda>k. take (length k) s = k \<and>
            run tail_re s (length k) (c(1 \<mapsto> take (length k) s)) \<noteq> []) = matches_field s"
    by (intro ext) (auto simp: matches_field_def take_field_colon run_tail_re_Nil)
  then show ?thesis
    using first_of_concat [of "\<lambda>k. run tail_re s (length k) (c(1 \<mapsto> take (length k) s))"
        "\<lambda>k. take (length k) s = k" fields]
    by (simp add: run_re_zero)
qed

lemma NumSubexp_re: "NumSubexp re = 2"
  by (simp add: re_def field_names_def)

lemma FindStringSubmatch_first:
  "FindStringSubmatch re s =
     (case run re s 0 Map.empty of
        [] \<Rightarrow> None
      | (j, c) # xs \<Rightarrow> Some [take j s, case c 1 of None \<Rightarrow> [] | Some t \<Rightarrow> t,
                             case c 2 of None \<Rightarrow> [] | Some t \<Rightarrow> t])"
proof -
  have later: "concat (map (\<lambda>i. map (\<lambda>(j, c). (i, j, c)) (run re s i Map.empty))
                 [Suc 0 ..< Suc (length s)]) = []"
    by (simp add: run_re_positive del: upt_Suc)
  have "[0 ..< Suc (length s)] = 0 # [Suc 0 ..< Suc (length s)]"
    by (simp add: upt_conv_Cons del: upt_Suc)
  then have "concat (map (\<lambda>i. map (\<lambda>(j, c). (i, j, c)) (run re s i Map.empty))
                 [0 ..< Suc (length s)]) = map (\<lambda>(j, c). (0, j, c)) (run re s 0 Map.empty)"
    using later by (simp del: upt_Suc)
  moreover have "[1 ..< Suc (NumSubexp re)] = [1, 2]"
    by (simp add: NumSubexp_re upt_conv_Cons del: upt_Suc)
  ultimately show ?thesis
    by (simp add: FindStringSubmatch_def split: list.splits del: upt_Suc)
qed

lemma FindStringSubmatch_re_None:
  "find (matches_field s) fields = None \<Longrightarrow> FindStringSubmatch re s = None"
  using first_run_re [of s Map.empty]
  by (simp add: FindStringSubmatch_first split: list.splits)

lemma FindStringSubmatch_re_Some:
  assumes "find (matches_field s) fields = Some k"
  shows "\<exists>whole. FindStringSubmatch re s =
           Some [whole, k, numeric_portion (drop (Suc (length k)) s)]"
proof -
  have m: "matches_field s k"
    using assms by (auto simp: find_Some_iff)
  then have k: "take (length k) s = k" and colon: "take 1 (drop (length k) s) = '':''"
    and num: "numeric_portion (drop (Suc (length k)) s) \<noteq> []"
    by (simp_all add: matches_field_def take_field_colon)
  obtain e where hd: "hd (run tail_re s (length k) (Map.empty(1 \<mapsto> k))) =
      (e, (Map.empty(1 \<mapsto> k))(2 \<mapsto> numeric_portion (drop (Suc (length k)) s)))"
    using run_tail_re_hd [OF colon num] by blast
  have "(case run re s 0 Map.empty of [] \<Rightarrow> None | x # xs \<Rightarrow> Some x) =
        Some (e, (Map.empty(1 \<mapsto> k))(2 \<mapsto> numeric_portion (drop (Suc (length k)) s)))"
    using first_run_re [of s Map.empty] assms hd k by simp
  then show ?thesis
    by (auto simp: FindStringSubmatch_first split: list.splits)
qed

lemma no_colon_in_fields: "k \<in> set fields \<Longrightarrow> CHR '':'' \<notin> set k"
proof -
  have "\<forall>k\<in>set fields. CHR '':'' \<notin> set k"
    by (simp add: fields_def)
  then show "k \<in> set fields \<Longrightarrow> CHR '':'' \<notin> set k" by blast
qed

lemma field_before_colon:
  assumes "CHR '':'' \<notin> set k" and "take (Suc (length k)) s = k @ '':''"
  shows "k = takeWhile (\<lambda>ch. ch \<noteq> CHR '':'') s"
proof -
  have "s = (k @ '':'') @ drop (Suc (length k)) s"
    using assms(2) append_take_drop_id [of "Suc (length k)" s] by simp
  then have s: "s = k @ CHR '':'' # drop (Suc (length k)) s" by simp
  have nc: "x \<noteq> CHR '':''" if "x \<in> set k" for x
    using assms(1) that by blast
  have "takeWhile (\<lambda>ch. ch \<noteq> CHR '':'') (k @ CHR '':'' # drop (Suc (length k)) s) =
        k @ takeWhile (\<lambda>ch. ch \<noteq> CHR '':'') (CHR '':'' # drop (Suc (length k)) s)"
    by (rule takeWhile_append2) (rule nc)
  then have "takeWhile (\<lambda>ch. ch \<noteq> CHR '':'') (k @ CHR '':'' # drop (Suc (length k)) s) = k"
    by simp
  then show ?thesis using s by simp
qed

lemma find_unique:
  assumes "k \<in> set ks" and "P k" and "\<And>x. x \<in> set ks \<Longrightarrow> P x \<Longrightarrow> x = k"
  shows "find P ks = Some k"
  using assms(1,3)
proof (induction ks)
  case Nil
  then show ?case by simp
next
  case (Cons a ks)
  show ?case
  proof (cases "P a")
    case True
    then have "a = k" using Cons.prems(2) [of a] by simp
    then show ?thesis using True by simp
  next
    case False
    then have "a \<noteq> k" using assms(2) by blast
    then have "k \<in> set ks" using Cons.prems(1) by simp
    moreover have "x = k" if "x \<in> set ks" "P x" for x
      using Cons.prems(2) [of x] that by simp
    ultimately have "find P ks = Some k" by (rule Cons.IH)
    then show ?thesis using False by simp
  qed
qed

lemma find_matches_field:
  assumes "k \<in> set fields" and "matches_field s k"
  shows "find (matches_field s) fields = Some k"
proof (rule find_unique [of k fields "matches_field s", OF assms])
  fix x
  assume x: "x \<in> set fields" and mx: "matches_field s x"
  have "x = takeWhile (\<lambda>ch. ch \<noteq> CHR '':'') s"
  proof (rule field_before_colon)
    show "CHR '':'' \<notin> set x" using x by (rule no_colon_in_fields)
    show "take (Suc (length x)) s = x @ '':''" using mx by (simp add: matches_field_def)
  qed
  moreover have "k = takeWhile (\<lambda>ch. ch \<noteq> CHR '':'') s"
  proof (rule field_before_colon)
    show "CHR '':'' \<notin> set k" using assms(1) by (rule no_colon_in_fields)
    show "take (Suc (length k)) s = k @ '':''" using assms(2) by (simp add: matches_field_def)
  qed
  ultimately show "x = k" by simp
qed

lemma find_matches_field_iff:
  "find (matches_field s) fields = Some k \<longleftrightarrow> k \<in> set fields \<and> matches_field s k"
proof
  assume "find (matches_field s) fields = Some k"
  then obtain i where "i < length fields" "matches_field s (fields ! i)" "k = fields ! i"
    unfolding find_Some_iff by blast
  then show "k \<in> set fields \<and> matches_field s k" by simp
next
  assume "k \<in> set fields \<and> matches_field s k"
  then show "find (matches_field s) fields = Some k" by (simp add: find_matches_field)
qed

lemma numeric_portion_digits: "\<forall>ch\<in>set (numeric_portion t). in_class Perl_digit ch"
  unfolding numeric_portion_def by (auto dest: set_takeWhileD)

lemma numeric_portion_append:
  assumes "\<forall>ch\<in>set ws. in_class Perl_space ch" and "digits \<noteq> []"
    and "\<forall>ch\<in>set digits. in_class Perl_digit ch"
    and "rest = [] \<or> \<not> in_class Perl_digit (hd rest)"
  shows "numeric_portion (ws @ digits @ rest) = digits"
proof -
  obtain d ds where digits: "digits = d # ds" using assms(2) by (cases digits) auto
  then have "in_class Perl_digit d" using assms(3) by simp
  then have "\<not> in_class Perl_space d" using space_not_digit by blast
  then have "dropWhile (in_class Perl_space) (ws @ digits @ rest) = digits @ rest"
    using assms(1) digits by (simp add: dropWhile_append3)
  moreover have "takeWhile (in_class Perl_digit) (digits @ rest) = digits"
  proof (cases rest)
    case Nil
    then show ?thesis using assms(3) by simp
  next
    case (Cons r rs)
    then have "\<not> in_class Perl_digit r" using assms(4) by simp
    then show ?thesis using assms(3) Cons by (simp add: takeWhile_tail)
  qed
  ultimately show ?thesis by (simp add: numeric_portion_def)
qed

lemma recognized_line_iff:
  "recognized_line line key digits \<longleftrightarrow>
     key \<in> set fields \<and> matches_field line key \<and>
     digits = numeric_portion (drop (Suc (length key)) line)"
proof
  assume "recognized_line line key digits"
  then obtain ws rest where key: "key \<in> set fields" and digits: "digits \<noteq> []"
    "\<forall>ch\<in>set digits. in_class Perl_digit ch"
    and line: "line = key @ '':'' @ ws @ digits @ rest"
    and ws: "\<forall>ch\<in>set ws. in_class Perl_space ch"
    and rest: "rest = [] \<or> \<not> in_class Perl_digit (hd rest)"
    by (auto simp: recognized_line_def)
  have "drop (Suc (length key)) line = ws @ digits @ rest" using line by simp
  then have "numeric_portion (drop (Suc (length key)) line) = digits"
    using numeric_portion_append [OF ws digits rest] by simp
  moreover have "take (Suc (length key)) line = key @ '':''" using line by simp
  ultimately show "key \<in> set fields \<and> matches_field line key \<and>
     digits = numeric_portion (drop (Suc (length key)) line)"
    using key digits by (simp add: matches_field_def)
next
  assume h: "key \<in> set fields \<and> matches_field line key \<and>
     digits = numeric_portion (drop (Suc (length key)) line)"
  define t where "t = drop (Suc (length key)) line"
  define ws where "ws = takeWhile (in_class Perl_space) t"
  define u where "u = dropWhile (in_class Perl_space) t"
  define rest where "rest = dropWhile (in_class Perl_digit) u"
  have digits: "digits = takeWhile (in_class Perl_digit) u"
    using h by (simp add: numeric_portion_def t_def u_def)
  have "line = take (Suc (length key)) line @ t"
    by (simp add: t_def)
  also have "take (Suc (length key)) line = key @ '':''"
    using h by (simp add: matches_field_def)
  also have "t = ws @ u" by (simp add: ws_def u_def)
  also have "u = digits @ rest" by (simp add: digits rest_def)
  finally have "line = key @ '':'' @ ws @ digits @ rest" by simp
  moreover have "\<forall>ch\<in>set ws. in_class Perl_space ch"
    unfolding ws_def by (auto dest: set_takeWhileD)
  moreover have "rest = [] \<or> \<not> in_class Perl_digit (hd rest)"
    unfolding rest_def using hd_dropWhile [of "in_class Perl_digit" u] by blast
  moreover have "digits \<noteq> []"
    using h by (simp add: matches_field_def)
  moreover have "\<forall>ch\<in>set digits. in_class Perl_digit ch"
    unfolding digits by (auto dest: set_takeWhileD)
  ultimately show "recognized_line line key digits"
    using h unfolding recognized_line_def by blast
qed

section \<open>Parsing the digits\<close>

text \<open>
  On a non-empty sequence of decimal digits \<^verbatim>\<open>ParseUint\<close> returns the number it denotes
  when that is below \<open>2\<^sup>6\<^sup>4\<close>, and a range error otherwise.
\<close>

lemma decimal_from_ge: "n \<le> decimal_from n ds"
proof (induction ds arbitrary: n)
  case Nil
  then show ?case by (simp add: decimal_from_def)
next
  case (Cons ch ds)
  have "n \<le> 10 * n + (of_char ch - 48)" by simp
  also have "\<dots> \<le> decimal_from (10 * n + (of_char ch - 48)) ds" by (rule Cons.IH)
  finally show ?case by (simp add: decimal_from_def)
qed

lemma cutoff_value: "cutoff = 1844674407370955162"
  by (simp add: cutoff_def)

lemma unat_uint64_less: "unat (x :: uint64) < 18446744073709551616"
  using unsigned_less [of x, where 'a = nat] by simp

lemma step_small:
  fixes n :: uint64
  assumes "\<not> cutoff \<le> n" and "d < 10"
  shows "unat (n * 10) = 10 * unat n"
    and "unat (n * 10 + of_nat d) = (10 * unat n + d) mod 2 ^ 64"
proof -
  have n: "unat n < 1844674407370955162"
    using assms(1) by (simp add: cutoff_value word_le_nat_alt)
  then show 1: "unat (n * 10) = 10 * unat n"
    by (simp add: unat_word_ariths)
  have "unat (of_nat d :: uint64) = d"
    using assms(2) by (simp add: unat_of_nat)
  then show "unat (n * 10 + of_nat d) = (10 * unat n + d) mod 2 ^ 64"
    using 1 by (simp add: unat_word_ariths)
qed

lemma ParseUint_loop_digits:
  assumes "\<forall>ch\<in>set ds. in_class Perl_digit ch"
  shows "ParseUint_loop s0 ds n =
     (if decimal_from (unat n) ds < 2 ^ 64
      then (of_nat (decimal_from (unat n) ds), None)
      else (maxVal, Some (NumError ''ParseUint'' s0 ErrRange)))"
  using assms
proof (induction ds arbitrary: n)
  case Nil
  show ?case using unat_uint64_less [of n] by (simp add: decimal_from_def)
next
  case (Cons ch ds)
  define d where "d = (of_char ch :: nat) - 48"
  have digit: "48 \<le> (of_char ch :: nat)" "(of_char ch :: nat) \<le> 57"
    using Cons.prems by simp_all
  then have d: "d < 10" by (simp add: d_def)
  have unfold: "decimal_from (unat n) (ch # ds) = decimal_from (10 * unat n + d) ds"
    by (simp add: decimal_from_def d_def)
  show ?case
  proof (cases "cutoff \<le> n")
    case True
    then have "1844674407370955162 \<le> unat n"
      by (simp add: cutoff_value word_le_nat_alt)
    then have "2 ^ 64 \<le> 10 * unat n + d" by simp
    also have "\<dots> \<le> decimal_from (10 * unat n + d) ds" by (rule decimal_from_ge)
    finally show ?thesis
      using True digit d by (simp add: unfold d_def Let_def)
  next
    case small: False
    note step = step_small [OF small d]
    show ?thesis
    proof (cases "10 * unat n + d < 2 ^ 64")
      case True
      then have n1: "unat (n * 10 + of_nat d) = 10 * unat n + d"
        using step(2) by simp
      then have "\<not> n * 10 + of_nat d < n * 10"
        using step(1) by (simp add: word_less_nat_alt)
      moreover have "\<not> n * 10 + of_nat d > maxVal"
        using unat_uint64_less [of "n * 10 + of_nat d"] by (simp add: maxVal_def word_less_nat_alt)
      moreover have "ParseUint_loop s0 ds (n * 10 + of_nat d) =
          (if decimal_from (10 * unat n + d) ds < 2 ^ 64
           then (of_nat (decimal_from (10 * unat n + d) ds), None)
           else (maxVal, Some (NumError ''ParseUint'' s0 ErrRange)))"
        using Cons.IH [of "n * 10 + of_nat d"] Cons.prems n1 by simp
      ultimately show ?thesis
        using small digit d by (simp add: unfold Let_def d_def [symmetric])
    next
      case False
      then have over: "2 ^ 64 \<le> 10 * unat n + d" by simp
      have "10 * unat n + d < 2 * 2 ^ 64"
        using d step(1) unat_uint64_less [of "n * 10"] by simp
      then have "(10 * unat n + d) mod 2 ^ 64 = 10 * unat n + d - 2 ^ 64"
        using over by (simp add: mod_if)
      then have "n * 10 + of_nat d < n * 10"
        using step d over by (simp add: word_less_nat_alt)
      moreover have "2 ^ 64 \<le> decimal_from (10 * unat n + d) ds"
        using over decimal_from_ge [of "10 * unat n + d" ds] by simp
      ultimately show ?thesis
        using small digit d by (simp add: unfold Let_def d_def [symmetric])
    qed
  qed
qed

lemma ParseUint_digits:
  assumes "ds \<noteq> []" and "\<forall>ch\<in>set ds. in_class Perl_digit ch"
  shows "ParseUint ds =
     (if decimal ds < 2 ^ 64 then (of_nat (decimal ds), None)
      else (maxVal, Some (NumError ''ParseUint'' ds ErrRange)))"
  using assms ParseUint_loop_digits [of ds ds 0]
  by (simp add: ParseUint_def decimal_def)

section \<open>One round of the loop\<close>

lemma line_entry_eq:
  "line_entry line =
     (case find (matches_field line) fields of
        None \<Rightarrow> None
      | Some k \<Rightarrow>
          (let ds = numeric_portion (drop (Suc (length k)) line) in
           if decimal ds < 2 ^ 64 then Some (k, of_nat (decimal ds)) else None))"
proof (cases "find (matches_field line) fields")
  case None
  then show ?thesis by (simp add: line_entry_def FindStringSubmatch_re_None)
next
  case (Some k)
  let ?ds = "numeric_portion (drop (Suc (length k)) line)"
  obtain whole where stat: "FindStringSubmatch re line = Some [whole, k, ?ds]"
    using FindStringSubmatch_re_Some [OF Some] by blast
  have "?ds \<noteq> []" using Some by (auto simp: find_Some_iff matches_field_def)
  then have "ParseUint ?ds =
     (if decimal ?ds < 2 ^ 64 then (of_nat (decimal ?ds), None)
      else (maxVal, Some (NumError ''ParseUint'' ?ds ErrRange)))"
    using ParseUint_digits numeric_portion_digits by blast
  then show ?thesis using Some stat by (simp add: line_entry_def Let_def)
qed

lemma memStats_loop_body:
  "memStats (loop_body line st) =
     (case line_entry line of None \<Rightarrow> memStats st | Some (k, v) \<Rightarrow> (memStats st)(k \<mapsto> v))"
  by (simp add: loop_body_def line_entry_def Let_def split: option.splits prod.splits)

section \<open>The whole scan\<close>

text \<open>
  The loop folds \<open>store_line\<close> over the lines of the scanner, and the routine returns
  the folded map with the derived entries.
\<close>

declare Scanner_lines.simps [simp del]
declare scan_loop.simps [simp del]

lemma memStats_scan_loop:
  "memStats (scan_loop input st) = foldl store_line (memStats st) (Scanner_lines input)"
proof (induction input st rule: scan_loop.induct)
  case (1 input st)
  show ?case
  proof (cases "Scan input")
    case None
    then show ?thesis
      by (simp add: scan_loop.simps [of input] Scanner_lines.simps [of input])
  next
    case (Some x)
    obtain line rest where x: "x = (line, rest)" by (cases x)
    have "memStats (scan_loop rest (loop_body line st)) =
          foldl store_line (memStats (loop_body line st)) (Scanner_lines rest)"
      using "1.IH" Some x by simp
    moreover have "memStats (loop_body line st) = store_line (memStats st) line"
      by (simp add: memStats_loop_body store_line_def)
    ultimately show ?thesis
      using Some x by (simp add: scan_loop.simps [of input] Scanner_lines.simps [of input])
  qed
qed

lemma getMemStats_opened:
  assumes "proc w ''/proc/meminfo'' = Inr file"
  shows "fst (getMemStats w) =
     (Some (with_derived (foldl store_line Map.empty (Scanner_lines file))), None)"
  using assms
  by (simp add: getMemStats_def os_Open_def with_derived_def Let_def memStats_scan_loop)

lemma line_entry_field: "line_entry line = Some (k, v) \<Longrightarrow> k \<in> set fields"
  by (auto simp: line_entry_eq Let_def find_matches_field_iff split: option.splits if_splits)

lemma derived_not_fields:
  "k \<in> set fields \<Longrightarrow> k \<noteq> ''MemUsed'' \<and> k \<noteq> ''SwapUsed'' \<and> k \<noteq> ''RealFree''"
proof -
  have "\<forall>k\<in>set fields. k \<noteq> ''MemUsed'' \<and> k \<noteq> ''SwapUsed'' \<and> k \<noteq> ''RealFree''"
    by (simp add: fields_def)
  then show "k \<in> set fields \<Longrightarrow> k \<noteq> ''MemUsed'' \<and> k \<noteq> ''SwapUsed'' \<and> k \<noteq> ''RealFree''"
    by blast
qed

lemma with_derived_other:
  "k \<noteq> ''MemUsed'' \<Longrightarrow> k \<noteq> ''SwapUsed'' \<Longrightarrow> k \<noteq> ''RealFree'' \<Longrightarrow> with_derived m k = m k"
  by (simp add: with_derived_def Let_def)

lemma with_derived_field: "k \<in> set fields \<Longrightarrow> with_derived m k = m k"
  using derived_not_fields [of k] by (simp add: with_derived_other)

lemma store_line_None: "line_entry l = None \<Longrightarrow> store_line m l = m"
  by (simp add: store_line_def)

lemma store_line_Some: "line_entry l = Some (k, v) \<Longrightarrow> store_line m l = m(k \<mapsto> v)"
  by (simp add: store_line_def)

lemma foldl_store_line_skip:
  "line_entry l = None \<Longrightarrow>
     foldl store_line m (xs @ [l] @ ys) = foldl store_line m (xs @ ys)"
  by (simp add: store_line_None)

lemma foldl_store_line_other:
  "\<forall>l\<in>set ys. map_option fst (line_entry l) \<noteq> Some k \<Longrightarrow> foldl store_line m ys k = m k"
proof (induction ys arbitrary: m)
  case Nil
  then show ?case by simp
next
  case (Cons y ys)
  have "store_line m y k = m k"
    using Cons.prems by (cases "line_entry y") (auto simp: store_line_def)
  moreover have "foldl store_line (store_line m y) ys k = store_line m y k"
    using Cons.prems by (intro Cons.IH) simp
  ultimately show ?case by simp
qed

lemma foldl_store_line_last:
  assumes "line_entry l = Some (k, v)"
    and "\<forall>l'\<in>set ys. map_option fst (line_entry l') \<noteq> Some k"
  shows "foldl store_line m (xs @ [l] @ ys) k = Some v"
proof -
  have "foldl store_line m (xs @ [l] @ ys) k =
        foldl store_line (store_line (foldl store_line m xs) l) ys k"
    by simp
  also have "\<dots> = store_line (foldl store_line m xs) l k"
    using assms(2) by (rule foldl_store_line_other)
  also have "\<dots> = Some v"
    using assms(1) by (simp add: store_line_Some)
  finally show ?thesis .
qed

section \<open>The lines of a text\<close>

text \<open>
  A line shorter than the buffer and ended by a newline is the next token; a text made of
  such lines is scanned into exactly these lines.
\<close>

lemma IndexByte_append:
  "c \<notin> set l \<Longrightarrow> IndexByte (l @ c # r) c = Some (length l)"
  by (induction l) auto

lemma Scan_Nil: "Scan [] = None"
  by (simp add: Scan_def ScanLines_def MaxScanTokenSize_def)

lemma Scan_line:
  assumes "newline \<notin> set l" and "length l < MaxScanTokenSize"
  shows "Scan (l @ newline # rest) = Some (dropCR l, rest)"
proof -
  let ?M = "MaxScanTokenSize"
  have "take ?M (l @ newline # rest) = l @ take (?M - length l) (newline # rest)"
    using assms(2) by simp
  also have "take (?M - length l) (newline # rest) = newline # take (?M - length l - 1) rest"
    using assms(2) by (cases "?M - length l") simp_all
  finally have data: "take ?M (l @ newline # rest) = l @ newline # take (?M - length l - 1) rest" .
  have "IndexByte (take ?M (l @ newline # rest)) newline = Some (length l)"
    unfolding data using assms(1) by (rule IndexByte_append)
  moreover have "take (length l) (take ?M (l @ newline # rest)) = l"
    unfolding data by simp
  ultimately show ?thesis
    by (simp add: Scan_def ScanLines_def)
qed

lemma Scanner_lines_Nil: "Scanner_lines [] = []"
  by (simp add: Scanner_lines.simps [of "[]"] Scan_Nil)

lemma Scanner_lines_line:
  assumes "newline \<notin> set l" and "length l < MaxScanTokenSize"
  shows "Scanner_lines (l @ newline # rest) = dropCR l # Scanner_lines rest"
  by (simp add: Scanner_lines.simps [of "l @ newline # rest"] Scan_line [OF assms])

lemma dropCR_id: "l = [] \<or> last l \<noteq> carriage_return \<Longrightarrow> dropCR l = l"
  by (auto simp: dropCR_def last_conv_nth)

lemma Scanner_lines_join:
  assumes "\<forall>l\<in>set ls. newline \<notin> set l \<and> length l < MaxScanTokenSize \<and>
                    (l = [] \<or> last l \<noteq> carriage_return)"
  shows "Scanner_lines (join_lines ls) = ls"
  using assms
proof (induction ls)
  case Nil
  then show ?case by (simp add: join_lines_def Scanner_lines_Nil)
next
  case (Cons l ls)
  have "join_lines (l # ls) = l @ newline # join_lines ls"
    by (simp add: join_lines_def)
  moreover have "Scanner_lines (l @ newline # join_lines ls) = dropCR l # Scanner_lines (join_lines ls)"
    using Cons.prems by (intro Scanner_lines_line) simp_all
  moreover have "dropCR l = l"
    using Cons.prems by (intro dropCR_id) simp
  moreover have "Scanner_lines (join_lines ls) = ls"
    using Cons.prems by (intro Cons.IH) simp
  ultimately show ?case by simp
qed

section \<open>The lines of the source\<close>

text \<open>
  The scanner delivers the lines of the source in order, each without its terminal carriage
  return, up to the first line that does not fit its buffer. A terminal carriage return
  makes no difference to what a line stores. So the routine returns the fold of
  \<open>store_line\<close> over the lines of the source before the first line of
  \<^verbatim>\<open>MaxScanTokenSize\<close> bytes or more, with the derived entries.
\<close>

declare source_lines.simps [simp del]

lemma all_not_iff: "(\<forall>x\<in>set l. x \<noteq> c) \<longleftrightarrow> c \<notin> set l"
  by blast

lemma source_lines_Nil: "source_lines [] = []"
  by (simp add: source_lines.simps [of "[]"])

lemma source_lines_line:
  assumes "newline \<notin> set l"
  shows "source_lines (l @ newline # rest) = l # source_lines rest"
proof -
  have "takeWhile (\<lambda>ch. ch \<noteq> newline) (l @ newline # rest) = l"
    using assms by (simp add: takeWhile_tail all_not_iff)
  moreover have "dropWhile (\<lambda>ch. ch \<noteq> newline) (l @ newline # rest) = newline # rest"
    using assms by (simp add: dropWhile_append3 all_not_iff)
  ultimately show ?thesis
    by (simp add: source_lines.simps [of "l @ newline # rest"])
qed

lemma source_lines_final:
  assumes "newline \<notin> set l" and "l \<noteq> []"
  shows "source_lines l = [l]"
proof -
  have tw: "takeWhile (\<lambda>ch. ch \<noteq> newline) l = l"
    and dw: "dropWhile (\<lambda>ch. ch \<noteq> newline) l = []"
    using assms(1) by (simp_all add: all_not_iff)
  have "source_lines l =
      takeWhile (\<lambda>ch. ch \<noteq> newline) l #
        (case dropWhile (\<lambda>ch. ch \<noteq> newline) l of [] \<Rightarrow> [] | ch # rest \<Rightarrow> source_lines rest)"
    using assms(2) by (subst source_lines.simps) simp
  then show ?thesis
    unfolding tw dw by simp
qed

lemma source_lines_join:
  assumes "\<forall>l\<in>set ls. newline \<notin> set l"
  shows "source_lines (join_lines ls) = ls"
  using assms
proof (induction ls)
  case Nil
  then show ?case by (simp add: join_lines_def source_lines_Nil)
next
  case (Cons l ls)
  have "join_lines (l # ls) = l @ newline # join_lines ls"
    by (simp add: join_lines_def)
  then show ?case
    using Cons by (simp add: source_lines_line)
qed

lemma IndexByte_None: "c \<notin> set d \<Longrightarrow> IndexByte d c = None"
  by (induction d) auto

lemma Scan_long:
  assumes "newline \<notin> set (take MaxScanTokenSize s)" and "MaxScanTokenSize \<le> length s"
  shows "Scan s = None"
  using assms IndexByte_None [OF assms(1)]
  by (simp add: Scan_def ScanLines_def)

lemma Scan_final:
  assumes "newline \<notin> set l" and "l \<noteq> []" and "length l < MaxScanTokenSize"
  shows "Scan l = Some (dropCR l, [])"
  using assms IndexByte_None [OF assms(1)]
  by (simp add: Scan_def ScanLines_def)

lemma Scanner_lines_source:
  "Scanner_lines s =
     map dropCR (takeWhile (\<lambda>l. length l < MaxScanTokenSize) (source_lines s))"
proof (induction s rule: source_lines.induct)
  case (1 s)
  let ?l = "takeWhile (\<lambda>ch. ch \<noteq> newline) s"
  let ?r = "dropWhile (\<lambda>ch. ch \<noteq> newline) s"
  have l: "newline \<notin> set ?l"
    by (auto dest: set_takeWhileD)
  show ?case
  proof (cases "s = []")
    case True
    then show ?thesis by (simp add: Scanner_lines_Nil source_lines_Nil)
  next
    case nonempty: False
    show ?thesis
    proof (cases ?r)
      case Nil
      then have no_nl: "newline \<notin> set s"
        by (simp add: all_not_iff)
      have lines: "source_lines s = [s]"
        using no_nl nonempty by (rule source_lines_final)
      show ?thesis
      proof (cases "length s < MaxScanTokenSize")
        case True
        have "Scan s = Some (dropCR s, [])"
          using no_nl nonempty True by (rule Scan_final)
        then show ?thesis
          using True by (simp add: Scanner_lines.simps [of s] Scanner_lines_Nil lines)
      next
        case False
        have "newline \<notin> set (take MaxScanTokenSize s)"
          using no_nl by (auto dest: in_set_takeD)
        then have "Scan s = None"
          using False by (intro Scan_long) simp_all
        then show ?thesis
          using False by (simp add: Scanner_lines.simps [of s] lines)
      qed
    next
      case (Cons ch rest)
      have "ch = newline"
        using hd_dropWhile [of "\<lambda>ch. ch \<noteq> newline" s] Cons by simp
      then have s: "s = ?l @ newline # rest"
        using takeWhile_dropWhile_id [of "\<lambda>ch. ch \<noteq> newline" s] Cons by simp
      have lines: "source_lines s = ?l # source_lines rest"
        using source_lines_line [OF l, of rest] s by simp
      have IH: "Scanner_lines rest =
          map dropCR (takeWhile (\<lambda>l. length l < MaxScanTokenSize) (source_lines rest))"
        using "1.IH" nonempty Cons by simp
      show ?thesis
      proof (cases "length ?l < MaxScanTokenSize")
        case True
        have "Scanner_lines (?l @ newline # rest) = dropCR ?l # Scanner_lines rest"
          using l True by (rule Scanner_lines_line)
        then have "Scanner_lines s = dropCR ?l # Scanner_lines rest"
          using s by simp
        then show ?thesis
          using True IH by (simp add: lines)
      next
        case False
        have "take MaxScanTokenSize (?l @ newline # rest) = take MaxScanTokenSize ?l"
          using False by simp
        then have "newline \<notin> set (take MaxScanTokenSize (?l @ newline # rest))"
          using l by (auto dest: in_set_takeD)
        then have "Scan (?l @ newline # rest) = None"
          using False by (intro Scan_long) simp_all
        then have "Scan s = None" using s by simp
        then show ?thesis
          using False by (simp add: Scanner_lines.simps [of s] lines)
      qed
    qed
  qed
qed

lemma numeric_portion_snoc_space:
  assumes "in_class Perl_space c"
  shows "numeric_portion (t @ [c]) = numeric_portion t"
proof (cases "\<forall>x\<in>set t. in_class Perl_space x")
  case True
  then have a: "dropWhile (in_class Perl_space) t = []"
    by (simp del: in_class.simps)
  have b: "dropWhile (in_class Perl_space) (t @ [c]) = []"
    using True assms by (simp del: in_class.simps)
  show ?thesis unfolding numeric_portion_def a b by simp
next
  case False
  then obtain x where x: "x \<in> set t" "\<not> in_class Perl_space x" by blast
  let ?u = "dropWhile (in_class Perl_space) t"
  have u: "dropWhile (in_class Perl_space) (t @ [c]) = ?u @ [c]"
    using x by (rule dropWhile_append1)
  have c: "\<not> in_class Perl_digit c"
    using assms by (rule space_not_digit)
  have "takeWhile (in_class Perl_digit) (?u @ [c]) = takeWhile (in_class Perl_digit) ?u"
  proof (cases "\<forall>y\<in>set ?u. in_class Perl_digit y")
    case True
    then have d: "takeWhile (in_class Perl_digit) (?u @ [c]) = ?u @ takeWhile (in_class Perl_digit) [c]"
      by (intro takeWhile_append2) blast
    have e: "takeWhile (in_class Perl_digit) ?u = ?u"
      using True by (simp add: takeWhile_eq_all_conv del: in_class.simps)
    have f: "takeWhile (in_class Perl_digit) [c] = []"
      using c by (simp del: in_class.simps)
    show ?thesis unfolding d e f by simp
  next
    case False
    then obtain y where "y \<in> set ?u" "\<not> in_class Perl_digit y" by blast
    then show ?thesis by (rule takeWhile_append1)
  qed
  then show ?thesis unfolding numeric_portion_def u by simp
qed

lemma take_snoc_prefix:
  assumes "p \<noteq> []" and "last p \<noteq> c"
  shows "take (length p) (l @ [c]) = p \<longleftrightarrow> take (length p) l = p"
proof (cases "length p \<le> length l")
  case True
  then show ?thesis by simp
next
  case False
  then have short: "length l < length p" by simp
  have "take (length p) l \<noteq> p"
  proof
    assume "take (length p) l = p"
    then have "length (take (length p) l) = length p" by simp
    then show False using short by simp
  qed
  moreover have "take (length p) (l @ [c]) \<noteq> p"
  proof
    assume eq: "take (length p) (l @ [c]) = p"
    have "take (length p) (l @ [c]) = l @ [c]"
      using short by simp
    then have "p = l @ [c]" using eq by simp
    then have "last p = c" by simp
    then show False using assms(2) by simp
  qed
  ultimately show ?thesis by simp
qed

lemma matches_field_snoc:
  assumes "in_class Perl_space c" and "c \<noteq> CHR '':''"
  shows "matches_field (l @ [c]) k \<longleftrightarrow> matches_field l k"
    and "matches_field l k \<Longrightarrow>
         numeric_portion (drop (Suc (length k)) (l @ [c])) =
         numeric_portion (drop (Suc (length k)) l)"
proof -
  have prefix: "take (Suc (length k)) (l @ [c]) = k @ '':'' \<longleftrightarrow> take (Suc (length k)) l = k @ '':''"
    using take_snoc_prefix [of "k @ '':''" c l] assms(2) by simp
  have num: "numeric_portion (drop (Suc (length k)) (l @ [c])) =
             numeric_portion (drop (Suc (length k)) l)"
    if "take (Suc (length k)) l = k @ '':''"
  proof -
    have "length (take (Suc (length k)) l) = Suc (length k)"
      using that by simp
    then have "Suc (length k) \<le> length l" by simp
    then have "drop (Suc (length k)) (l @ [c]) = drop (Suc (length k)) l @ [c]" by simp
    then show ?thesis using numeric_portion_snoc_space [OF assms(1)] by (simp del: in_class.simps)
  qed
  show "matches_field (l @ [c]) k \<longleftrightarrow> matches_field l k"
    using prefix num unfolding matches_field_def by auto
  show "matches_field l k \<Longrightarrow>
         numeric_portion (drop (Suc (length k)) (l @ [c])) =
         numeric_portion (drop (Suc (length k)) l)"
    using num by (simp add: matches_field_def)
qed

lemma line_entry_snoc_CR: "line_entry (l @ [carriage_return]) = line_entry l"
proof -
  have cr: "in_class Perl_space carriage_return" "carriage_return \<noteq> CHR '':''"
    by (simp_all add: carriage_return_def)
  have same: "matches_field (l @ [carriage_return]) = matches_field l"
    by (intro ext) (rule matches_field_snoc(1) [OF cr])
  show ?thesis
  proof (cases "find (matches_field l) fields")
    case None
    then show ?thesis by (simp add: line_entry_eq same)
  next
    case (Some k)
    then have "matches_field l k" by (simp add: find_matches_field_iff)
    then have "numeric_portion (drop (Suc (length k)) (l @ [carriage_return])) =
               numeric_portion (drop (Suc (length k)) l)"
      by (rule matches_field_snoc(2) [OF cr])
    then show ?thesis using Some by (simp add: line_entry_eq same)
  qed
qed

lemma line_entry_dropCR: "line_entry (dropCR l) = line_entry l"
proof (cases "0 < length l \<and> l ! (length l - 1) = carriage_return")
  case True
  then have "l \<noteq> []" by auto
  then have "butlast l @ [last l] = l" by simp
  moreover have "last l = carriage_return"
    using True \<open>l \<noteq> []\<close> by (simp add: last_conv_nth)
  ultimately have "l = take (length l - 1) l @ [carriage_return]"
    by (simp add: butlast_conv_take)
  then have "line_entry l = line_entry (take (length l - 1) l)"
    using line_entry_snoc_CR [of "take (length l - 1) l"] by simp
  then show ?thesis using True by (simp add: dropCR_def)
next
  case False
  then show ?thesis by (auto simp: dropCR_def)
qed

lemma foldl_store_line_dropCR:
  "foldl store_line m (map dropCR ls) = foldl store_line m ls"
  by (induction ls arbitrary: m) (simp_all add: store_line_def line_entry_dropCR)

lemma getMemStats_source:
  assumes "proc w ''/proc/meminfo'' = Inr content"
  shows "fst (getMemStats w) =
     (Some (with_derived (foldl store_line Map.empty
        (takeWhile (\<lambda>l. length l < MaxScanTokenSize) (source_lines content)))), None)"
  using getMemStats_opened [OF assms]
  by (simp add: Scanner_lines_source foldl_store_line_dropCR)

section \<open>Lines and entries\<close>

text \<open>
  The result in terms of the lines of the source that the loop reads, the entry of a line
  in the words of the specification, and what a fold of the loop body leaves under a key.
\<close>

lemma getMemStats_scanned:
  assumes "proc w ''/proc/meminfo'' = Inr content"
  shows "fst (getMemStats w) =
     (Some (with_derived (foldl store_line Map.empty (scanned_lines content))), None)"
  using getMemStats_source [OF assms] by (simp add: scanned_lines_def MaxScanTokenSize_def)

lemma line_entry_Some_iff:
  "line_entry line = Some (key, v) \<longleftrightarrow>
     (\<exists>digits. recognized_line line key digits \<and> decimal digits < 2 ^ 64 \<and>
               v = of_nat (decimal digits))"
proof
  assume entry: "line_entry line = Some (key, v)"
  let ?ds = "numeric_portion (drop (Suc (length key)) line)"
  from entry have found: "find (matches_field line) fields = Some key"
    and fits: "decimal ?ds < 2 ^ 64" and v: "v = of_nat (decimal ?ds)"
    by (auto simp: line_entry_eq Let_def split: option.splits if_splits)
  from found have "recognized_line line key ?ds"
    by (simp add: find_matches_field_iff recognized_line_iff)
  with fits v show "\<exists>digits. recognized_line line key digits \<and> decimal digits < 2 ^ 64 \<and>
               v = of_nat (decimal digits)"
    by blast
next
  assume "\<exists>digits. recognized_line line key digits \<and> decimal digits < 2 ^ 64 \<and>
               v = of_nat (decimal digits)"
  then obtain digits where rec: "recognized_line line key digits"
    and fits: "decimal digits < 2 ^ 64" and v: "v = of_nat (decimal digits)"
    by blast
  from rec have "find (matches_field line) fields = Some key"
    and "digits = numeric_portion (drop (Suc (length key)) line)"
    by (simp_all add: recognized_line_iff find_matches_field_iff)
  with fits v show "line_entry line = Some (key, v)"
    by (simp add: line_entry_eq)
qed

lemma no_valid_line_no_entry:
  assumes "\<forall>d. recognized_line y k d \<longrightarrow> 2 ^ 64 \<le> decimal d"
  shows "map_option fst (line_entry y) \<noteq> Some k"
proof
  assume "map_option fst (line_entry y) = Some k"
  then obtain v where "line_entry y = Some (k, v)" by auto
  then obtain d where "recognized_line y k d" "decimal d < 2 ^ 64"
    unfolding line_entry_Some_iff by blast
  then show False using assms by fastforce
qed

lemma colon_in_matched_line:
  assumes "matches_field s k"
  shows "take (length k) s = k \<and> CHR '':'' \<in> set s"
proof -
  have t: "take (Suc (length k)) s = k @ '':''"
    using assms by (simp add: matches_field_def)
  then have "take (length k) s = k"
    by (simp add: take_field_colon)
  moreover have "CHR '':'' \<in> set (take (Suc (length k)) s)"
    unfolding t by simp
  then have "CHR '':'' \<in> set s"
    by (rule in_set_takeD)
  ultimately show ?thesis by simp
qed

lemma line_entry_no_colon: "CHR '':'' \<notin> set s \<Longrightarrow> line_entry s = None"
proof -
  assume nc: "CHR '':'' \<notin> set s"
  have "find (matches_field s) fields = None"
  proof (rule ccontr)
    assume "find (matches_field s) fields \<noteq> None"
    then obtain k where "find (matches_field s) fields = Some k" by auto
    then have "matches_field s k" by (simp add: find_matches_field_iff)
    then show False using colon_in_matched_line nc by blast
  qed
  then show ?thesis by (simp add: line_entry_eq)
qed

lemma field_name_of_line:
  assumes "CHR '':'' \<notin> set name" and "k \<in> set fields"
    and "matches_field (name @ '':'' @ rest) k"
  shows "k = name"
proof -
  have "k = takeWhile (\<lambda>ch. ch \<noteq> CHR '':'') (name @ '':'' @ rest)"
  proof (rule field_before_colon)
    show "CHR '':'' \<notin> set k" using assms(2) by (rule no_colon_in_fields)
    show "take (Suc (length k)) (name @ '':'' @ rest) = k @ '':''"
      using assms(3) by (simp add: matches_field_def)
  qed
  moreover have "name = takeWhile (\<lambda>ch. ch \<noteq> CHR '':'') (name @ '':'' @ rest)"
    using assms(1) by (intro field_before_colon) simp_all
  ultimately show ?thesis by simp
qed

lemma unrecognized_name_no_entry:
  assumes "CHR '':'' \<notin> set name" and "name \<notin> set fields"
  shows "line_entry (name @ '':'' @ rest) = None"
proof -
  have "find (matches_field (name @ '':'' @ rest)) fields = None"
  proof (rule ccontr)
    assume "find (matches_field (name @ '':'' @ rest)) fields \<noteq> None"
    then obtain k where "find (matches_field (name @ '':'' @ rest)) fields = Some k" by auto
    then have "k \<in> set fields" "matches_field (name @ '':'' @ rest) k"
      by (simp_all add: find_matches_field_iff)
    then have "k = name" using assms(1) field_name_of_line by blast
    then show False using \<open>k \<in> set fields\<close> assms(2) by simp
  qed
  then show ?thesis by (simp add: line_entry_eq)
qed

lemma unparsable_no_entry:
  assumes "key \<in> set fields" and "snd (ParseUint (numeric_portion rest)) \<noteq> None"
  shows "line_entry (key @ '':'' @ rest) = None"
proof (cases "find (matches_field (key @ '':'' @ rest)) fields")
  case None
  then show ?thesis by (simp add: line_entry_eq)
next
  case (Some k)
  then have k: "k \<in> set fields" "matches_field (key @ '':'' @ rest) k"
    by (simp_all add: find_matches_field_iff)
  have "k = key"
    using no_colon_in_fields [OF assms(1)] k by (rule field_name_of_line)
  then have ds: "numeric_portion (drop (Suc (length k)) (key @ '':'' @ rest)) = numeric_portion rest"
    by simp
  have "numeric_portion rest \<noteq> []"
    using k(2) ds by (simp add: matches_field_def)
  then have "ParseUint (numeric_portion rest) =
     (if decimal (numeric_portion rest) < 2 ^ 64 then (of_nat (decimal (numeric_portion rest)), None)
      else (maxVal, Some (NumError ''ParseUint'' (numeric_portion rest) ErrRange)))"
    using numeric_portion_digits by (intro ParseUint_digits) blast+
  then have "\<not> decimal (numeric_portion rest) < 2 ^ 64"
    using assms(2) by (auto split: if_splits)
  then show ?thesis
    using Some ds by (simp add: line_entry_eq Let_def)
qed

lemma foldl_store_line_takeWhile_skip:
  assumes "line_entry l = None" and "P l"
  shows "foldl store_line m (takeWhile P (xs @ [l] @ ys)) =
         foldl store_line m (takeWhile P (xs @ ys))"
proof (cases "\<forall>x\<in>set xs. P x")
  case True
  then have "takeWhile P (xs @ [l] @ ys) = xs @ takeWhile P ([l] @ ys)"
    and "takeWhile P (xs @ ys) = xs @ takeWhile P ys"
    by (simp_all add: takeWhile_append2)
  then show ?thesis
    using assms by (simp add: store_line_None)
next
  case False
  then obtain x where "x \<in> set xs" "\<not> P x" by blast
  then have "takeWhile P (xs @ [l] @ ys) = takeWhile P xs"
    and "takeWhile P (xs @ ys) = takeWhile P xs"
    by (simp_all add: takeWhile_append1)
  then show ?thesis by simp
qed


lemma length_over_long_line: "length over_long_line = 65536"
  by (simp add: over_long_line_def MaxScanTokenSize_def)

lemma set_over_long_line: "set over_long_line \<subseteq> {CHR ''x''}"
  unfolding over_long_line_def by (simp add: set_replicate_conv_if)

lemma newline_not_in_over_long_line: "newline \<notin> set over_long_line"
  using set_over_long_line by (auto simp: newline_def)


lemma valid_line_entry:
  assumes "recognized_line l k digits" and "decimal digits < 2 ^ 64"
  shows "line_entry l = Some (k, of_nat (decimal digits))"
  using assms line_entry_Some_iff by blast

lemma entry_valid_line:
  "map_option fst (line_entry y) \<noteq> Some k \<longleftrightarrow>
     (\<forall>d. recognized_line y k d \<longrightarrow> 2 ^ 64 \<le> decimal d)"
proof
  assume a: "map_option fst (line_entry y) \<noteq> Some k"
  show "\<forall>d. recognized_line y k d \<longrightarrow> 2 ^ 64 \<le> decimal d"
  proof (intro allI impI)
    fix d
    assume r: "recognized_line y k d"
    show "2 ^ 64 \<le> decimal d"
    proof (rule ccontr)
      assume "\<not> 2 ^ 64 \<le> decimal d"
      then have "decimal d < 2 ^ 64" by simp
      with r have "line_entry y = Some (k, of_nat (decimal d))"
        by (rule valid_line_entry)
      then show False using a by simp
    qed
  qed
next
  assume "\<forall>d. recognized_line y k d \<longrightarrow> 2 ^ 64 \<le> decimal d"
  then show "map_option fst (line_entry y) \<noteq> Some k"
    by (rule no_valid_line_no_entry)
qed

lemma entry_valid_lines:
  "(\<forall>y\<in>set ys. map_option fst (line_entry y) \<noteq> Some k) \<longleftrightarrow>
     (\<forall>y\<in>set ys. \<forall>d. recognized_line y k d \<longrightarrow> 2 ^ 64 \<le> decimal d)"
  using entry_valid_line [of _ k] by blast

lemma store_line_key:
  "store_line m a k =
     (case line_entry a of None \<Rightarrow> m k | Some (k', v) \<Rightarrow> if k = k' then Some v else m k)"
  by (cases "line_entry a") (auto simp: store_line_def)

lemma foldl_store_line_None_iff:
  "foldl store_line m ls k = None \<longleftrightarrow>
     m k = None \<and> (\<forall>x\<in>set ls. map_option fst (line_entry x) \<noteq> Some k)"
proof (induction ls arbitrary: m)
  case Nil
  show ?case by simp
next
  case (Cons a ls)
  have "store_line m a k = None \<longleftrightarrow> m k = None \<and> map_option fst (line_entry a) \<noteq> Some k"
    by (cases "line_entry a") (auto simp: store_line_key split: if_splits)
  then show ?case
    using Cons.IH [of "store_line m a"] by auto
qed

lemma foldl_store_line_Some_last:
  assumes "foldl store_line Map.empty ls k = Some v"
  shows "\<exists>xs l ys. ls = xs @ [l] @ ys \<and> line_entry l = Some (k, v) \<and>
           (\<forall>y\<in>set ys. map_option fst (line_entry y) \<noteq> Some k)"
  using assms
proof (induction ls rule: rev_induct)
  case Nil
  then show ?case by simp
next
  case (snoc a ls)
  show ?case
  proof (cases "map_option fst (line_entry a) = Some k")
    case True
    then obtain v' where e: "line_entry a = Some (k, v')" by auto
    then have "foldl store_line Map.empty (ls @ [a]) k = Some v'"
      by (simp add: store_line_key)
    then have "v' = v" using snoc.prems by simp
    then have "ls @ [a] = ls @ [a] @ [] \<and> line_entry a = Some (k, v) \<and>
        (\<forall>y\<in>set []. map_option fst (line_entry y) \<noteq> Some k)"
      using e by simp
    then show ?thesis by blast
  next
    case False
    then have "store_line m a k = m k" for m
      by (cases "line_entry a") (auto simp: store_line_key)
    then have "foldl store_line Map.empty ls k = Some v"
      using snoc.prems by simp
    then obtain xs l ys where "ls = xs @ [l] @ ys" and "line_entry l = Some (k, v)"
      and "\<forall>y\<in>set ys. map_option fst (line_entry y) \<noteq> Some k"
      using snoc.IH by blast
    then have "ls @ [a] = xs @ [l] @ (ys @ [a]) \<and> line_entry l = Some (k, v) \<and>
        (\<forall>y\<in>set (ys @ [a]). map_option fst (line_entry y) \<noteq> Some k)"
      using False by simp
    then show ?thesis by blast
  qed
qed

lemma foldl_store_line_dom:
  assumes "foldl store_line Map.empty ls k = Some v"
  shows "k \<in> set fields"
proof -
  obtain l where "line_entry l = Some (k, v)"
    using foldl_store_line_Some_last [OF assms] by blast
  then show ?thesis by (rule line_entry_field)
qed

lemma with_derived_keys:
  assumes "with_derived m k = Some v"
  shows "k \<in> {''MemUsed'', ''SwapUsed'', ''RealFree''} \<or> m k = Some v"
proof (cases "k \<in> {''MemUsed'', ''SwapUsed'', ''RealFree''}")
  case True
  then show ?thesis by simp
next
  case False
  then have "with_derived m k = m k"
    by (intro with_derived_other) simp_all
  then show ?thesis using assms by simp
qed

lemma scanned_lines_short:
  assumes "\<forall>l\<in>set (source_lines content). length l < 65536"
  shows "scanned_lines content = source_lines content"
  using assms by (simp add: scanned_lines_def)

lemma scanned_lines_cut:
  assumes "source_lines content = xs @ l # ys"
    and "\<forall>x\<in>set xs. length x < 65536" and "65536 \<le> length l"
  shows "scanned_lines content = xs"
  using assms by (simp add: scanned_lines_def)


lemma store_line_update_iff:
  "(\<forall>m0. store_line m0 line = m0(key \<mapsto> v)) \<longleftrightarrow> line_entry line = Some (key, v)"
proof
  assume a: "\<forall>m0. store_line m0 line = m0(key \<mapsto> v)"
  then have e: "store_line Map.empty line key = Some v"
    by simp
  show "line_entry line = Some (key, v)"
  proof (cases "line_entry line")
    case None
    then show ?thesis using e by (simp add: store_line_key)
  next
    case (Some p)
    obtain k' v' where p: "p = (k', v')" by (cases p)
    have "k' = key"
      using e Some p by (simp add: store_line_key split: if_splits)
    then show ?thesis
      using e Some p by (simp add: store_line_key)
  qed
next
  assume "line_entry line = Some (key, v)"
  then show "\<forall>m0. store_line m0 line = m0(key \<mapsto> v)"
    by (simp add: store_line_def)
qed

lemma store_line_id_iff:
  "(\<forall>m0. store_line m0 line = m0) \<longleftrightarrow> line_entry line = None"
proof
  assume a: "\<forall>m0. store_line m0 line = m0"
  show "line_entry line = None"
  proof (cases "line_entry line")
    case None
    then show ?thesis .
  next
    case (Some p)
    obtain k' v' where p: "p = (k', v')" by (cases p)
    have "store_line Map.empty line k' = Some v'"
      using Some p by (simp add: store_line_key)
    then show ?thesis using a by simp
  qed
next
  assume "line_entry line = None"
  then show "\<forall>m0. store_line m0 line = m0"
    by (simp add: store_line_def)
qed

lemma line_entry_None_iff:
  "line_entry line = None \<longleftrightarrow>
     \<not> (\<exists>key digits. recognized_line line key digits \<and> decimal digits < 2 ^ 64)"
proof
  assume n: "line_entry line = None"
  show "\<not> (\<exists>key digits. recognized_line line key digits \<and> decimal digits < 2 ^ 64)"
  proof
    assume "\<exists>key digits. recognized_line line key digits \<and> decimal digits < 2 ^ 64"
    then obtain key digits where "recognized_line line key digits" and "decimal digits < 2 ^ 64"
      by blast
    then have "line_entry line = Some (key, of_nat (decimal digits))"
      by (rule valid_line_entry)
    then show False using n by simp
  qed
next
  assume a: "\<not> (\<exists>key digits. recognized_line line key digits \<and> decimal digits < 2 ^ 64)"
  show "line_entry line = None"
  proof (cases "line_entry line")
    case None
    then show ?thesis .
  next
    case (Some p)
    obtain k' v' where "line_entry line = Some (k', v')"
      using Some by (cases p) simp
    then obtain digits where "recognized_line line k' digits" and "decimal digits < 2 ^ 64"
      unfolding line_entry_Some_iff by blast
    then show ?thesis using a by blast
  qed
qed

lemma last_valid_line_iff:
  assumes "key \<in> set fields"
  shows "with_derived (foldl store_line Map.empty ls) key = Some v \<longleftrightarrow>
     (\<exists>xs l ys digits. ls = xs @ [l] @ ys \<and>
        recognized_line l key digits \<and> decimal digits < 2 ^ 64 \<and> v = of_nat (decimal digits) \<and>
        (\<forall>y\<in>set ys. \<forall>d. recognized_line y key d \<longrightarrow> 2 ^ 64 \<le> decimal d))"
proof
  assume "with_derived (foldl store_line Map.empty ls) key = Some v"
  then have "foldl store_line Map.empty ls key = Some v"
    using assms by (simp add: with_derived_field)
  then obtain xs l ys where ls: "ls = xs @ [l] @ ys" and e: "line_entry l = Some (key, v)"
    and later: "\<forall>y\<in>set ys. map_option fst (line_entry y) \<noteq> Some key"
    using foldl_store_line_Some_last by blast
  from e obtain digits where "recognized_line l key digits" and "decimal digits < 2 ^ 64"
    and "v = of_nat (decimal digits)"
    unfolding line_entry_Some_iff by blast
  moreover from later have "\<forall>y\<in>set ys. \<forall>d. recognized_line y key d \<longrightarrow> 2 ^ 64 \<le> decimal d"
    by (simp only: entry_valid_lines)
  ultimately show "\<exists>xs l ys digits. ls = xs @ [l] @ ys \<and>
        recognized_line l key digits \<and> decimal digits < 2 ^ 64 \<and> v = of_nat (decimal digits) \<and>
        (\<forall>y\<in>set ys. \<forall>d. recognized_line y key d \<longrightarrow> 2 ^ 64 \<le> decimal d)"
    using ls by blast
next
  assume "\<exists>xs l ys digits. ls = xs @ [l] @ ys \<and>
        recognized_line l key digits \<and> decimal digits < 2 ^ 64 \<and> v = of_nat (decimal digits) \<and>
        (\<forall>y\<in>set ys. \<forall>d. recognized_line y key d \<longrightarrow> 2 ^ 64 \<le> decimal d)"
  then obtain xs l ys digits where ls: "ls = xs @ [l] @ ys"
    and r: "recognized_line l key digits" and f: "decimal digits < 2 ^ 64"
    and v: "v = of_nat (decimal digits)"
    and later: "\<forall>y\<in>set ys. \<forall>d. recognized_line y key d \<longrightarrow> 2 ^ 64 \<le> decimal d"
    by blast
  have e: "line_entry l = Some (key, v)"
    unfolding v using r f by (rule valid_line_entry)
  have l: "\<forall>y\<in>set ys. map_option fst (line_entry y) \<noteq> Some key"
    using later by (simp only: entry_valid_lines)
  have "foldl store_line Map.empty (xs @ [l] @ ys) key = Some v"
    using e l by (rule foldl_store_line_last)
  then show "with_derived (foldl store_line Map.empty ls) key = Some v"
    using assms ls by (simp add: with_derived_field)
qed

lemma other_keys_absent:
  assumes "key \<notin> set fields" and "key \<notin> {''MemUsed'', ''SwapUsed'', ''RealFree''}"
  shows "with_derived (foldl store_line Map.empty ls) key = None"
proof (rule ccontr)
  assume "with_derived (foldl store_line Map.empty ls) key \<noteq> None"
  then obtain v where "with_derived (foldl store_line Map.empty ls) key = Some v"
    by auto
  then have "foldl store_line Map.empty ls key = Some v"
    using with_derived_keys assms(2) by blast
  then have "key \<in> set fields"
    by (rule foldl_store_line_dom)
  then show False using assms(1) by simp
qed

lemma unrecognized_name_not_recognized:
  assumes "CHR '':'' \<notin> set name" and "name \<notin> set fields"
  shows "\<not> recognized_line (name @ '':'' @ rest) key digits"
proof
  assume "recognized_line (name @ '':'' @ rest) key digits"
  then have k: "key \<in> set fields" and "matches_field (name @ '':'' @ rest) key"
    by (simp_all add: recognized_line_iff)
  with assms(1) have "key = name"
    by (rule field_name_of_line)
  then show False using k assms(2) by simp
qed

lemma entries_from_lines:
  assumes "key \<in> set fields"
    and "with_derived (foldl store_line Map.empty ls) key = Some v"
  shows "\<exists>x\<in>set ls. line_entry x = Some (key, v)"
proof -
  have "foldl store_line Map.empty ls key = Some v"
    using assms by (simp add: with_derived_field)
  then obtain xs l ys where "ls = xs @ [l] @ ys" and "line_entry l = Some (key, v)"
    using foldl_store_line_Some_last by blast
  then show ?thesis by auto
qed


section \<open>Properties\<close>

subsection \<open>Opening the resource\<close>

text \<open>
  Claim C3. When \<^verbatim>\<open>/proc/meminfo\<close> cannot be opened, the routine returns at once: no
  mapping, the \<^verbatim>\<open>PathError\<close> of the failed open (operation, path and errno), and the world
  untouched. When it can be opened, whatever its bytes are, the routine returns a mapping
  and a \<^verbatim>\<open>nil\<close> error. So a failed open is the only way to an error result.
\<close>

theorem getMemStats_error_only_from_open:
  "(\<forall>errno. proc w ''/proc/meminfo'' = Inl errno \<longrightarrow>
      getMemStats w = ((None, Some (PathError ''open'' ''/proc/meminfo'' errno)), w)) \<and>
   (\<forall>file. proc w ''/proc/meminfo'' = Inr file \<longrightarrow>
      (\<exists>m. fst (getMemStats w) = (Some m, None)))"
  by (simp add: getMemStats_def os_Open_def Let_def)

theorem getMemStats_error_only_from_open_witness:
  "getMemStats \<lparr>proc = (\<lambda>p. Inl 2), stdout = []\<rparr> =
     ((None, Some (PathError ''open'' ''/proc/meminfo'' 2)), \<lparr>proc = (\<lambda>p. Inl 2), stdout = []\<rparr>) \<and>
   (\<exists>m. fst (getMemStats \<lparr>proc = (\<lambda>p. Inr ''MemFree: 5''), stdout = []\<rparr>) = (Some m, None))"
  using getMemStats_error_only_from_open [of "\<lparr>proc = (\<lambda>p. Inl 2), stdout = []\<rparr>"]
    getMemStats_error_only_from_open [of "\<lparr>proc = (\<lambda>p. Inr ''MemFree: 5''), stdout = []\<rparr>"]
  by simp

subsection \<open>Which lines store an entry\<close>

text \<open>
  Claim C2 says that a line contributes an entry to the result exactly when it is a
  recognized line. Two sources show that being recognized is not enough. In the first,
  the digits of the only line denote \<open>2\<^sup>6\<^sup>4\<close>: the line matches the pattern,
  \<^verbatim>\<open>ParseUint\<close> reports a range error and the round stores nothing. In the second, the
  only line is \<^verbatim>\<open>MemTotal: 5\<close> followed by a space and 65536 letters: the scanner finds
  no newline in its full buffer, \<^verbatim>\<open>Scan\<close> returns false and the loop body never runs.
  In both, the line is a recognized line and the result has no \<^verbatim>\<open>MemTotal\<close>.
\<close>

theorem recognized_lines_without_entry:
  "recognized_line ''MemTotal: 18446744073709551616 kB'' ''MemTotal'' ''18446744073709551616'' \<and>
   (\<exists>m. fst (getMemStats
       \<lparr>proc = (\<lambda>p. Inr (join_lines [''MemTotal: 18446744073709551616 kB''])), stdout = []\<rparr>) =
         (Some m, None) \<and> m ''MemTotal'' = None) \<and>
   length over_long_line = 65536 \<and>
   recognized_line (''MemTotal: 5 '' @ over_long_line) ''MemTotal'' ''5'' \<and>
   decimal ''5'' = 5 \<and>
   source_lines (join_lines [''MemTotal: 5 '' @ over_long_line]) =
     [''MemTotal: 5 '' @ over_long_line] \<and>
   (\<exists>m. fst (getMemStats
       \<lparr>proc = (\<lambda>p. Inr (join_lines [''MemTotal: 5 '' @ over_long_line])), stdout = []\<rparr>) =
         (Some m, None) \<and> m ''MemTotal'' = None)"
proof -
  let ?a = "''MemTotal: 18446744073709551616 kB''"
  let ?b = "''MemTotal: 5 '' @ over_long_line"
  have absent: "with_derived Map.empty ''MemTotal'' = None"
    by (simp add: with_derived_def Let_def)
  have ra: "recognized_line ?a ''MemTotal'' ''18446744073709551616''"
    by (simp add: recognized_line_iff fields_def matches_field_def numeric_portion_def)
  have "source_lines (join_lines [?a]) = [?a]"
    by (rule source_lines_join) (simp add: newline_def)
  then have "scanned_lines (join_lines [?a]) = [?a]"
    by (simp add: scanned_lines_def)
  moreover have "line_entry ?a = None"
    by code_simp
  ultimately have a: "fst (getMemStats \<lparr>proc = (\<lambda>p. Inr (join_lines [?a])), stdout = []\<rparr>) =
      (Some (with_derived Map.empty), None)"
    using getMemStats_scanned [of "\<lparr>proc = (\<lambda>p. Inr (join_lines [?a])), stdout = []\<rparr>" "join_lines [?a]"]
    by (simp add: store_line_def)
  have rb: "recognized_line ?b ''MemTotal'' ''5''"
    by (simp add: recognized_line_iff fields_def matches_field_def numeric_portion_def)
  have d: "decimal ''5'' = 5"
    by (simp add: decimal_def decimal_from_def)
  have lb: "source_lines (join_lines [?b]) = [] @ ?b # []"
    using newline_not_in_over_long_line by (simp add: source_lines_join newline_def)
  have "scanned_lines (join_lines [?b]) = []"
    using lb by (rule scanned_lines_cut) (simp_all add: length_over_long_line)
  then have b: "fst (getMemStats \<lparr>proc = (\<lambda>p. Inr (join_lines [?b])), stdout = []\<rparr>) =
      (Some (with_derived Map.empty), None)"
    using getMemStats_scanned [of "\<lparr>proc = (\<lambda>p. Inr (join_lines [?b])), stdout = []\<rparr>" "join_lines [?b]"]
    by simp
  show ?thesis
    using ra a rb d lb b absent length_over_long_line by simp
qed

text \<open>
  Claim C2, amended. When the resource can be opened, the result is what the rounds of
  the loop, one for each line that the loop reads and in their order, make of the empty
  mapping, with the derived keys added. A round stores the entry \<open>(key, v)\<close>, whatever
  the mapping was, exactly when the line is a recognized line for \<open>key\<close> whose digits
  denote a number below \<open>2\<^sup>6\<^sup>4\<close>, and \<open>v\<close> is that number; a round leaves the mapping
  as it was exactly when the line is no such line. So the result holds \<open>v\<close> under a field
  name exactly when the last such line for that name, among the lines read, has the
  value \<open>v\<close>; and it holds nothing under a name that is neither a field name nor a
  derived key.
\<close>

theorem entries_of_the_result:
  assumes "proc w ''/proc/meminfo'' = Inr content"
  shows "\<exists>m. fst (getMemStats w) = (Some m, None) \<and>
     m = with_derived (foldl store_line Map.empty (scanned_lines content)) \<and>
     (\<forall>line key v.
        (\<forall>m0. store_line m0 line = m0(key \<mapsto> v)) \<longleftrightarrow>
        (\<exists>digits. recognized_line line key digits \<and> decimal digits < 2 ^ 64 \<and>
                  v = of_nat (decimal digits))) \<and>
     (\<forall>line.
        (\<forall>m0. store_line m0 line = m0) \<longleftrightarrow>
        \<not> (\<exists>key digits. recognized_line line key digits \<and> decimal digits < 2 ^ 64)) \<and>
     (\<forall>key v. key \<in> set fields \<longrightarrow>
        (m key = Some v \<longleftrightarrow>
           (\<exists>xs l ys digits. scanned_lines content = xs @ [l] @ ys \<and>
              recognized_line l key digits \<and> decimal digits < 2 ^ 64 \<and>
              v = of_nat (decimal digits) \<and>
              (\<forall>y\<in>set ys. \<forall>d. recognized_line y key d \<longrightarrow> 2 ^ 64 \<le> decimal d)))) \<and>
     (\<forall>key. key \<notin> set fields \<and> key \<notin> {''MemUsed'', ''SwapUsed'', ''RealFree''} \<longrightarrow>
        m key = None)"
proof (intro exI conjI)
  show "fst (getMemStats w) =
      (Some (with_derived (foldl store_line Map.empty (scanned_lines content))), None)"
    using assms by (rule getMemStats_scanned)
  show "with_derived (foldl store_line Map.empty (scanned_lines content)) =
      with_derived (foldl store_line Map.empty (scanned_lines content))"
    by (rule refl)
  show "\<forall>line key v.
        (\<forall>m0. store_line m0 line = m0(key \<mapsto> v)) \<longleftrightarrow>
        (\<exists>digits. recognized_line line key digits \<and> decimal digits < 2 ^ 64 \<and>
                  v = of_nat (decimal digits))"
    unfolding store_line_update_iff by (intro allI) (rule line_entry_Some_iff)
  show "\<forall>line.
        (\<forall>m0. store_line m0 line = m0) \<longleftrightarrow>
        \<not> (\<exists>key digits. recognized_line line key digits \<and> decimal digits < 2 ^ 64)"
    unfolding store_line_id_iff by (intro allI) (rule line_entry_None_iff)
  show "\<forall>key v. key \<in> set fields \<longrightarrow>
        (with_derived (foldl store_line Map.empty (scanned_lines content)) key = Some v \<longleftrightarrow>
           (\<exists>xs l ys digits. scanned_lines content = xs @ [l] @ ys \<and>
              recognized_line l key digits \<and> decimal digits < 2 ^ 64 \<and>
              v = of_nat (decimal digits) \<and>
              (\<forall>y\<in>set ys. \<forall>d. recognized_line y key d \<longrightarrow> 2 ^ 64 \<le> decimal d)))"
    by (intro allI impI) (rule last_valid_line_iff)
  show "\<forall>key. key \<notin> set fields \<and> key \<notin> {''MemUsed'', ''SwapUsed'', ''RealFree''} \<longrightarrow>
        with_derived (foldl store_line Map.empty (scanned_lines content)) key = None"
    using other_keys_absent by blast
qed

text \<open>
  The amended claim on a source with one recognized line and one line for another name.
\<close>

theorem entries_of_the_result_witness:
  "\<exists>m. fst (getMemStats
      \<lparr>proc = (\<lambda>p. Inr (join_lines [''MemTotal: 1000 kB'', ''Bogus: 1 kB''])), stdout = []\<rparr>) =
        (Some m, None) \<and>
     m ''MemTotal'' = Some 1000 \<and> m ''Bogus'' = None"
proof -
  let ?c = "join_lines [''MemTotal: 1000 kB'', ''Bogus: 1 kB'']"
  let ?w = "\<lparr>proc = (\<lambda>p. Inr ?c), stdout = []\<rparr>"
  have "proc ?w ''/proc/meminfo'' = Inr ?c"
    by simp
  from entries_of_the_result [OF this] obtain m
    where m: "fst (getMemStats ?w) = (Some m, None)"
      and last: "\<forall>key v. key \<in> set fields \<longrightarrow>
        (m key = Some v \<longleftrightarrow>
           (\<exists>xs l ys digits. scanned_lines ?c = xs @ [l] @ ys \<and>
              recognized_line l key digits \<and> decimal digits < 2 ^ 64 \<and>
              v = of_nat (decimal digits) \<and>
              (\<forall>y\<in>set ys. \<forall>d. recognized_line y key d \<longrightarrow> 2 ^ 64 \<le> decimal d)))"
      and other: "\<forall>key. key \<notin> set fields \<and> key \<notin> {''MemUsed'', ''SwapUsed'', ''RealFree''} \<longrightarrow>
        m key = None"
    by (elim exE conjE) (rule that)
  have "source_lines ?c = [''MemTotal: 1000 kB'', ''Bogus: 1 kB'']"
    by (rule source_lines_join) (simp add: newline_def)
  then have lines: "scanned_lines ?c = [] @ [''MemTotal: 1000 kB''] @ [''Bogus: 1 kB'']"
    by (simp add: scanned_lines_def)
  have rec: "recognized_line ''MemTotal: 1000 kB'' ''MemTotal'' ''1000''"
    by (simp add: recognized_line_iff fields_def matches_field_def numeric_portion_def)
  have d: "decimal ''1000'' = 1000"
    by (simp add: decimal_def decimal_from_def)
  have later: "\<forall>y\<in>set [''Bogus: 1 kB'']. \<forall>d. recognized_line y ''MemTotal'' d \<longrightarrow> 2 ^ 64 \<le> decimal d"
    by (simp add: recognized_line_iff matches_field_def)
  have field: "''MemTotal'' \<in> set fields"
    by (simp add: fields_def)
  have ex: "\<exists>xs l ys digits. scanned_lines ?c = xs @ [l] @ ys \<and>
      recognized_line l ''MemTotal'' digits \<and> decimal digits < 2 ^ 64 \<and>
      (1000 :: uint64) = of_nat (decimal digits) \<and>
      (\<forall>y\<in>set ys. \<forall>d. recognized_line y ''MemTotal'' d \<longrightarrow> 2 ^ 64 \<le> decimal d)"
    using lines rec later
    by (intro exI [of _ "[]"] exI [of _ "''MemTotal: 1000 kB''"] exI [of _ "[''Bogus: 1 kB'']"]
        exI [of _ "''1000''"]) (simp add: d)
  have "m ''MemTotal'' = Some 1000"
    by (rule iffD2 [OF last [rule_format, OF field] ex])
  moreover have "m ''Bogus'' = None"
    by (rule other [rule_format]) (simp add: fields_def)
  ultimately show ?thesis
    using m by simp
qed

subsection \<open>The parse of a matched line\<close>

text \<open>
  Claim C10. When the pattern matches a line, the second group is a non-empty sequence
  of decimal digits. \<^verbatim>\<open>ParseUint\<close> fails on it exactly when the digits denote a number
  above \<open>2\<^sup>6\<^sup>4 - 1\<close>, and then the round prints the range error and stores nothing.
  When the number fits, the parse succeeds with that number and the round stores it
  under the name captured by the first group.
\<close>

theorem matched_digits_parse:
  assumes "FindStringSubmatch re line = Some stat"
  shows "stat ! 2 \<noteq> [] \<and> (\<forall>ch\<in>set (stat ! 2). in_class Perl_digit ch) \<and>
     (snd (ParseUint (stat ! 2)) \<noteq> None \<longleftrightarrow> 2 ^ 64 - 1 < decimal (stat ! 2)) \<and>
     (2 ^ 64 - 1 < decimal (stat ! 2) \<longrightarrow>
        loop_body line st = st\<lparr>out := out st @ [NumError ''ParseUint'' (stat ! 2) ErrRange]\<rparr>) \<and>
     (decimal (stat ! 2) \<le> 2 ^ 64 - 1 \<longrightarrow>
        ParseUint (stat ! 2) = (of_nat (decimal (stat ! 2)), None) \<and>
        loop_body line st = st\<lparr>memStats := (memStats st)(stat ! 1 \<mapsto> of_nat (decimal (stat ! 2)))\<rparr>)"
proof (cases "find (matches_field line) fields")
  case None
  then show ?thesis using assms by (simp add: FindStringSubmatch_re_None)
next
  case (Some k)
  let ?ds = "numeric_portion (drop (Suc (length k)) line)"
  obtain whole where stat: "stat = [whole, k, ?ds]"
    using FindStringSubmatch_re_Some [OF Some] assms by auto
  have nonempty: "?ds \<noteq> []"
    using Some by (simp add: find_matches_field_iff matches_field_def)
  have digits: "\<forall>ch\<in>set ?ds. in_class Perl_digit ch"
    by (rule numeric_portion_digits)
  have parse: "ParseUint ?ds =
     (if decimal ?ds < 2 ^ 64 then (of_nat (decimal ?ds), None)
      else (maxVal, Some (NumError ''ParseUint'' ?ds ErrRange)))"
    using nonempty digits by (rule ParseUint_digits)
  have two: "stat ! 2 = ?ds" and one: "stat ! 1 = k"
    by (simp_all add: stat)
  show ?thesis
    unfolding two one using nonempty digits parse assms
    by (auto simp: loop_body_def stat)
qed

text \<open>Claim C10 at the line \<^verbatim>\<open>MemTotal: 1000 kB\<close>.\<close>

theorem matched_digits_parse_witness:
  "FindStringSubmatch re ''MemTotal: 1000 kB'' = Some [''MemTotal: 1000'', ''MemTotal'', ''1000''] \<and>
   ParseUint ''1000'' = (1000, None) \<and>
   loop_body ''MemTotal: 1000 kB'' \<lparr>memStats = Map.empty, out = []\<rparr> =
     \<lparr>memStats = [''MemTotal'' \<mapsto> 1000], out = []\<rparr>"
proof -
  have m: "FindStringSubmatch re ''MemTotal: 1000 kB'' =
      Some [''MemTotal: 1000'', ''MemTotal'', ''1000'']"
    by code_simp
  have d: "decimal ''1000'' = 1000"
    by (simp add: decimal_def decimal_from_def)
  show ?thesis
    using matched_digits_parse [OF m, of "\<lparr>memStats = Map.empty, out = []\<rparr>"] m d by simp
qed

subsection \<open>Repeated fields\<close>




subsection \<open>Lines that cannot be parsed\<close>

text \<open>
  Claim C4 says that a line whose numeric portion cannot be parsed is skipped and the
  call uses the data of the other lines. In the source below the line
  \<^verbatim>\<open>MemTotal: abc kB\<close> goes on for 65536 more letters. The scanner gives up at it, so
  the line \<^verbatim>\<open>MemFree: 5 kB\<close> after it is never read: the result has no \<^verbatim>\<open>MemFree\<close>,
  while the source without the long line gives \<^verbatim>\<open>MemFree\<close> the value 5.
\<close>

theorem over_long_unparsable_line_counterexample:
  "length over_long_line = 65536 \<and>
   ''MemTotal'' \<in> set fields \<and>
   snd (ParseUint (numeric_portion ('' abc kB '' @ over_long_line))) \<noteq> None \<and>
   source_lines (join_lines [''MemTotal: abc kB '' @ over_long_line, ''MemFree: 5 kB'']) =
     [''MemTotal: abc kB '' @ over_long_line, ''MemFree: 5 kB''] \<and>
   (\<exists>m. fst (getMemStats
       \<lparr>proc = (\<lambda>p. Inr (join_lines [''MemTotal: abc kB '' @ over_long_line, ''MemFree: 5 kB''])),
        stdout = []\<rparr>) = (Some m, None) \<and> m ''MemFree'' = None) \<and>
   (\<exists>m. fst (getMemStats \<lparr>proc = (\<lambda>p. Inr (join_lines [''MemFree: 5 kB''])), stdout = []\<rparr>) =
       (Some m, None) \<and> m ''MemFree'' = Some 5)"
proof -
  let ?l = "''MemTotal: abc kB '' @ over_long_line"
  let ?c = "join_lines [?l, ''MemFree: 5 kB'']"
  let ?c' = "join_lines [''MemFree: 5 kB'']"
  have bad: "snd (ParseUint (numeric_portion ('' abc kB '' @ over_long_line))) \<noteq> None"
    by (simp add: numeric_portion_def ParseUint_def)
  have lines: "source_lines ?c = [] @ ?l # [''MemFree: 5 kB'']"
    using newline_not_in_over_long_line by (simp add: source_lines_join newline_def)
  have "scanned_lines ?c = []"
    using lines by (rule scanned_lines_cut) (simp_all add: length_over_long_line)
  then have c: "fst (getMemStats \<lparr>proc = (\<lambda>p. Inr ?c), stdout = []\<rparr>) =
      (Some (with_derived Map.empty), None)"
    using getMemStats_scanned [of "\<lparr>proc = (\<lambda>p. Inr ?c), stdout = []\<rparr>" ?c] by simp
  have "source_lines ?c' = [''MemFree: 5 kB'']"
    by (rule source_lines_join) (simp add: newline_def)
  then have "scanned_lines ?c' = [''MemFree: 5 kB'']"
    by (simp add: scanned_lines_def)
  moreover have "line_entry ''MemFree: 5 kB'' = Some (''MemFree'', 5)"
    by code_simp
  ultimately have c': "fst (getMemStats \<lparr>proc = (\<lambda>p. Inr ?c'), stdout = []\<rparr>) =
      (Some (with_derived [''MemFree'' \<mapsto> 5]), None)"
    using getMemStats_scanned [of "\<lparr>proc = (\<lambda>p. Inr ?c'), stdout = []\<rparr>" ?c']
    by (simp add: store_line_def)
  have "with_derived Map.empty ''MemFree'' = None"
    and "with_derived [''MemFree'' \<mapsto> 5] ''MemFree'' = Some 5"
    by (simp_all add: with_derived_def Let_def)
  then show ?thesis
    using bad lines c c' length_over_long_line by (simp add: fields_def)
qed

text \<open>
  Claim C4, amended. Let a line of the source, shorter than 65536 bytes, start with a
  field name and a colon, and let its numeric portion (the digits after the whitespace
  that follows the colon) not parse as an unsigned 64-bit integer: there is no digit, or
  the number is \<open>2\<^sup>6\<^sup>4\<close> or more. Then the call succeeds and returns the mapping that it
  returns for the source without this line; and the field name is absent from that
  mapping exactly when no line that the loop reads from the source without this line
  is a valid line for the name.
\<close>

theorem unparsable_line_is_skipped:
  assumes "proc w ''/proc/meminfo'' = Inr content"
    and "source_lines content = xs @ [key @ '':'' @ rest] @ ys"
    and "length (key @ '':'' @ rest) < 65536"
    and "key \<in> set fields"
    and "snd (ParseUint (numeric_portion rest)) \<noteq> None"
    and "proc w' ''/proc/meminfo'' = Inr content'"
    and "source_lines content' = xs @ ys"
  shows "\<exists>m. fst (getMemStats w) = (Some m, None) \<and> fst (getMemStats w') = (Some m, None) \<and>
     (m key = None \<longleftrightarrow>
        (\<forall>x\<in>set (scanned_lines content'). \<forall>d. recognized_line x key d \<longrightarrow> 2 ^ 64 \<le> decimal d))"
proof -
  let ?l = "key @ '':'' @ rest"
  have none: "line_entry ?l = None"
    using assms(4,5) by (rule unparsable_no_entry)
  have same: "foldl store_line Map.empty (scanned_lines content) =
      foldl store_line Map.empty (scanned_lines content')"
    unfolding scanned_lines_def assms(2) assms(7)
    using foldl_store_line_takeWhile_skip [where l = ?l and P = "\<lambda>l. length l < 65536"] none assms(3)
    by simp
  have "with_derived (foldl store_line Map.empty (scanned_lines content')) key =
      foldl store_line Map.empty (scanned_lines content') key"
    using assms(4) by (rule with_derived_field)
  then have "with_derived (foldl store_line Map.empty (scanned_lines content')) key = None \<longleftrightarrow>
      (\<forall>x\<in>set (scanned_lines content'). \<forall>d. recognized_line x key d \<longrightarrow> 2 ^ 64 \<le> decimal d)"
    by (simp only: foldl_store_line_None_iff entry_valid_lines) simp
  then show ?thesis
    using getMemStats_scanned [OF assms(1)] getMemStats_scanned [OF assms(6)] same by simp
qed

text \<open>
  The amended claim on a source with the line \<^verbatim>\<open>MemTotal: abc kB\<close>.
\<close>

theorem unparsable_line_is_skipped_witness:
  "\<exists>m. fst (getMemStats
      \<lparr>proc = (\<lambda>p. Inr (join_lines [''MemFree: 5 kB'', ''MemTotal: abc kB''])), stdout = []\<rparr>) =
        (Some m, None) \<and>
     fst (getMemStats \<lparr>proc = (\<lambda>p. Inr (join_lines [''MemFree: 5 kB''])), stdout = []\<rparr>) =
        (Some m, None) \<and>
     m ''MemTotal'' = None"
proof -
  let ?c = "join_lines [''MemFree: 5 kB'', ''MemTotal: abc kB'']"
  let ?c' = "join_lines [''MemFree: 5 kB'']"
  have "source_lines ?c = [''MemFree: 5 kB'', ''MemTotal: abc kB'']"
    by (rule source_lines_join) (simp add: newline_def)
  then have lines: "source_lines ?c = [''MemFree: 5 kB''] @ [''MemTotal'' @ '':'' @ '' abc kB''] @ []"
    by simp
  have lines': "source_lines ?c' = [''MemFree: 5 kB''] @ []"
    using source_lines_join [of "[''MemFree: 5 kB'']"] by (simp add: newline_def)
  have short: "length (''MemTotal'' @ '':'' @ '' abc kB'') < 65536"
    by simp
  have field: "''MemTotal'' \<in> set fields"
    by (simp add: fields_def)
  have bad: "snd (ParseUint (numeric_portion '' abc kB'')) \<noteq> None"
    by (simp add: numeric_portion_def ParseUint_def)
  have "scanned_lines ?c' = [''MemFree: 5 kB'']"
    using lines' by (simp add: scanned_lines_def)
  then have others: "\<forall>x\<in>set (scanned_lines ?c'). \<forall>d. recognized_line x ''MemTotal'' d \<longrightarrow> 2 ^ 64 \<le> decimal d"
    by (simp add: recognized_line_iff matches_field_def)
  show ?thesis
    using unparsable_line_is_skipped [OF _ lines short field bad _ lines',
        of "\<lparr>proc = (\<lambda>p. Inr ?c), stdout = []\<rparr>" "\<lparr>proc = (\<lambda>p. Inr ?c'), stdout = []\<rparr>"]
      others
    by simp
qed

subsection \<open>Lines for other fields\<close>

text \<open>
  Claim C7 says that a line whose field name is not recognized contributes nothing to
  the result. In the source below the line for \<^verbatim>\<open>VmallocTotal\<close> goes on for 65536 more
  letters. The scanner gives up at it, so the result holds the value 1 for
  \<^verbatim>\<open>MemTotal\<close>; without the line it holds the value 2.
\<close>

theorem over_long_unrecognized_line_counterexample:
  "length over_long_line = 65536 \<and>
   ''VmallocTotal'' \<notin> set fields \<and>
   source_lines (join_lines
       [''MemTotal: 1 kB'', ''VmallocTotal: 999 kB '' @ over_long_line, ''MemTotal: 2 kB'']) =
     [''MemTotal: 1 kB'', ''VmallocTotal: 999 kB '' @ over_long_line, ''MemTotal: 2 kB''] \<and>
   (\<exists>m. fst (getMemStats
       \<lparr>proc = (\<lambda>p. Inr (join_lines
           [''MemTotal: 1 kB'', ''VmallocTotal: 999 kB '' @ over_long_line, ''MemTotal: 2 kB''])),
        stdout = []\<rparr>) = (Some m, None) \<and> m ''MemTotal'' = Some 1) \<and>
   (\<exists>m. fst (getMemStats
       \<lparr>proc = (\<lambda>p. Inr (join_lines [''MemTotal: 1 kB'', ''MemTotal: 2 kB''])), stdout = []\<rparr>) =
         (Some m, None) \<and> m ''MemTotal'' = Some 2)"
proof -
  let ?l = "''VmallocTotal: 999 kB '' @ over_long_line"
  let ?c = "join_lines [''MemTotal: 1 kB'', ?l, ''MemTotal: 2 kB'']"
  let ?c' = "join_lines [''MemTotal: 1 kB'', ''MemTotal: 2 kB'']"
  have e1: "line_entry ''MemTotal: 1 kB'' = Some (''MemTotal'', 1)"
    and e2: "line_entry ''MemTotal: 2 kB'' = Some (''MemTotal'', 2)"
    by code_simp+
  have lines: "source_lines ?c = [''MemTotal: 1 kB''] @ ?l # [''MemTotal: 2 kB'']"
    using newline_not_in_over_long_line by (simp add: source_lines_join newline_def)
  have "scanned_lines ?c = [''MemTotal: 1 kB'']"
    using lines by (rule scanned_lines_cut) (simp_all add: length_over_long_line)
  then have c: "fst (getMemStats \<lparr>proc = (\<lambda>p. Inr ?c), stdout = []\<rparr>) =
      (Some (with_derived [''MemTotal'' \<mapsto> 1]), None)"
    using getMemStats_scanned [of "\<lparr>proc = (\<lambda>p. Inr ?c), stdout = []\<rparr>" ?c] e1
    by (simp add: store_line_def)
  have "source_lines ?c' = [''MemTotal: 1 kB'', ''MemTotal: 2 kB'']"
    by (rule source_lines_join) (simp add: newline_def)
  then have "scanned_lines ?c' = [''MemTotal: 1 kB'', ''MemTotal: 2 kB'']"
    by (simp add: scanned_lines_def)
  then have c': "fst (getMemStats \<lparr>proc = (\<lambda>p. Inr ?c'), stdout = []\<rparr>) =
      (Some (with_derived [''MemTotal'' \<mapsto> 2]), None)"
    using getMemStats_scanned [of "\<lparr>proc = (\<lambda>p. Inr ?c'), stdout = []\<rparr>" ?c'] e1 e2
    by (simp add: store_line_def)
  have "with_derived [''MemTotal'' \<mapsto> 1] ''MemTotal'' = Some 1"
    and "with_derived [''MemTotal'' \<mapsto> 2] ''MemTotal'' = Some 2"
    by (simp_all add: with_derived_def Let_def)
  then show ?thesis
    using lines c c' length_over_long_line by (simp add: fields_def)
qed

text \<open>
  Claim C7, amended. Let a line of the source consist of a name without a colon, a
  colon and any text, where the name is none of the fifteen field names. The line is no
  recognized line, and a round of the loop for it leaves the mapping as it was. Every
  entry of the result under a field name is the value of a valid line among the other
  lines of the source, and the result holds nothing under a name that is neither a field
  name nor a derived key. When the line is shorter than 65536 bytes, the call returns
  what it returns for the source without the line.
\<close>

theorem unrecognized_field_contributes_nothing:
  assumes "proc w ''/proc/meminfo'' = Inr content"
    and "source_lines content = xs @ [name @ '':'' @ rest] @ ys"
    and "CHR '':'' \<notin> set name" and "name \<notin> set fields"
    and "proc w' ''/proc/meminfo'' = Inr content'"
    and "source_lines content' = xs @ ys"
  shows "(\<forall>key digits. \<not> recognized_line (name @ '':'' @ rest) key digits) \<and>
     (\<forall>m0. store_line m0 (name @ '':'' @ rest) = m0) \<and>
     (length (name @ '':'' @ rest) < 65536 \<longrightarrow> fst (getMemStats w) = fst (getMemStats w')) \<and>
     (\<exists>m. fst (getMemStats w) = (Some m, None) \<and>
        (\<forall>key v. key \<in> set fields \<and> m key = Some v \<longrightarrow>
           (\<exists>x\<in>set (xs @ ys). \<exists>digits. recognized_line x key digits \<and>
              decimal digits < 2 ^ 64 \<and> v = of_nat (decimal digits))) \<and>
        (\<forall>key. key \<notin> set fields \<and> key \<notin> {''MemUsed'', ''SwapUsed'', ''RealFree''} \<longrightarrow>
           m key = None))"
proof (intro conjI)
  let ?l = "name @ '':'' @ rest"
  let ?m = "with_derived (foldl store_line Map.empty (scanned_lines content))"
  have none: "line_entry ?l = None"
    using assms(3,4) by (rule unrecognized_name_no_entry)
  show "\<forall>key digits. \<not> recognized_line ?l key digits"
    using assms(3,4) by (intro allI) (rule unrecognized_name_not_recognized)
  show "\<forall>m0. store_line m0 ?l = m0"
    using none by (simp add: store_line_None)
  show "length ?l < 65536 \<longrightarrow> fst (getMemStats w) = fst (getMemStats w')"
  proof
    assume short: "length ?l < 65536"
    have "foldl store_line Map.empty (scanned_lines content) =
        foldl store_line Map.empty (scanned_lines content')"
      unfolding scanned_lines_def assms(2) assms(6)
      using foldl_store_line_takeWhile_skip [where l = ?l and P = "\<lambda>l. length l < 65536"] none short
      by simp
    then show "fst (getMemStats w) = fst (getMemStats w')"
      using getMemStats_scanned [OF assms(1)] getMemStats_scanned [OF assms(5)] by simp
  qed
  have from_lines: "\<forall>key v. key \<in> set fields \<and> ?m key = Some v \<longrightarrow>
      (\<exists>x\<in>set (xs @ ys). \<exists>digits. recognized_line x key digits \<and>
         decimal digits < 2 ^ 64 \<and> v = of_nat (decimal digits))"
  proof (intro allI impI)
    fix key v
    assume "key \<in> set fields \<and> ?m key = Some v"
    then obtain x where x: "x \<in> set (scanned_lines content)" and e: "line_entry x = Some (key, v)"
      using entries_from_lines by blast
    from x have "x \<in> set (xs @ [?l] @ ys)"
      unfolding scanned_lines_def assms(2) by (rule set_takeWhileD [THEN conjunct1])
    moreover have "x \<noteq> ?l"
      using e none by auto
    ultimately have "x \<in> set (xs @ ys)"
      by simp
    moreover from e obtain digits where "recognized_line x key digits"
      and "decimal digits < 2 ^ 64" and "v = of_nat (decimal digits)"
      unfolding line_entry_Some_iff by blast
    ultimately show "\<exists>x\<in>set (xs @ ys). \<exists>digits. recognized_line x key digits \<and>
         decimal digits < 2 ^ 64 \<and> v = of_nat (decimal digits)"
      by blast
  qed
  have others: "\<forall>key. key \<notin> set fields \<and> key \<notin> {''MemUsed'', ''SwapUsed'', ''RealFree''} \<longrightarrow>
      ?m key = None"
    using other_keys_absent by blast
  show "\<exists>m. fst (getMemStats w) = (Some m, None) \<and>
        (\<forall>key v. key \<in> set fields \<and> m key = Some v \<longrightarrow>
           (\<exists>x\<in>set (xs @ ys). \<exists>digits. recognized_line x key digits \<and>
              decimal digits < 2 ^ 64 \<and> v = of_nat (decimal digits))) \<and>
        (\<forall>key. key \<notin> set fields \<and> key \<notin> {''MemUsed'', ''SwapUsed'', ''RealFree''} \<longrightarrow>
           m key = None)"
    using getMemStats_scanned [OF assms(1)] from_lines others
    by (intro exI [of _ ?m] conjI)
qed

text \<open>
  The amended claim on a source with the line \<^verbatim>\<open>VmallocTotal: 999 kB\<close>.
\<close>

theorem unrecognized_field_contributes_nothing_witness:
  "fst (getMemStats
      \<lparr>proc = (\<lambda>p. Inr (join_lines [''MemTotal: 1 kB'', ''VmallocTotal: 999 kB'', ''MemFree: 2 kB''])),
       stdout = []\<rparr>) =
   fst (getMemStats
      \<lparr>proc = (\<lambda>p. Inr (join_lines [''MemTotal: 1 kB'', ''MemFree: 2 kB''])), stdout = []\<rparr>) \<and>
   (\<exists>m. fst (getMemStats
      \<lparr>proc = (\<lambda>p. Inr (join_lines [''MemTotal: 1 kB'', ''VmallocTotal: 999 kB'', ''MemFree: 2 kB''])),
       stdout = []\<rparr>) = (Some m, None) \<and> m ''VmallocTotal'' = None)"
proof -
  let ?c = "join_lines [''MemTotal: 1 kB'', ''VmallocTotal: 999 kB'', ''MemFree: 2 kB'']"
  let ?c' = "join_lines [''MemTotal: 1 kB'', ''MemFree: 2 kB'']"
  let ?w = "\<lparr>proc = (\<lambda>p. Inr ?c), stdout = []\<rparr>"
  let ?w' = "\<lparr>proc = (\<lambda>p. Inr ?c'), stdout = []\<rparr>"
  have "source_lines ?c = [''MemTotal: 1 kB'', ''VmallocTotal: 999 kB'', ''MemFree: 2 kB'']"
    by (rule source_lines_join) (simp add: newline_def)
  then have lines: "source_lines ?c =
      [''MemTotal: 1 kB''] @ [''VmallocTotal'' @ '':'' @ '' 999 kB''] @ [''MemFree: 2 kB'']"
    by simp
  have "source_lines ?c' = [''MemTotal: 1 kB'', ''MemFree: 2 kB'']"
    by (rule source_lines_join) (simp add: newline_def)
  then have lines': "source_lines ?c' = [''MemTotal: 1 kB''] @ [''MemFree: 2 kB'']"
    by simp
  have name: "CHR '':'' \<notin> set ''VmallocTotal''" and unknown: "''VmallocTotal'' \<notin> set fields"
    by (simp_all add: fields_def)
  have o: "proc ?w ''/proc/meminfo'' = Inr ?c" and o': "proc ?w' ''/proc/meminfo'' = Inr ?c'"
    by simp_all
  note t = unrecognized_field_contributes_nothing [OF o lines name unknown o' lines']
  have "length (''VmallocTotal'' @ '':'' @ '' 999 kB'') < 65536"
    by simp
  with t [THEN conjunct2, THEN conjunct2, THEN conjunct1]
  have same: "fst (getMemStats ?w) = fst (getMemStats ?w')"
    by (rule mp)
  from t [THEN conjunct2, THEN conjunct2, THEN conjunct2] obtain m
    where m: "fst (getMemStats ?w) = (Some m, None)"
      and other: "\<forall>key. key \<notin> set fields \<and> key \<notin> {''MemUsed'', ''SwapUsed'', ''RealFree''} \<longrightarrow>
           m key = None"
    by (elim exE conjE) (rule that)
  have "m ''VmallocTotal'' = None"
    by (rule other [rule_format]) (simp add: fields_def)
  with m have "\<exists>m. fst (getMemStats ?w) = (Some m, None) \<and> m ''VmallocTotal'' = None"
    by blast
  with same show ?thesis
    by (rule conjI)
qed

subsection \<open>The derived keys\<close>



text \<open>
  Claim C5. An input of a derived statistic that is absent from the collected mapping
  (the map as the loop leaves it) counts as zero, and the arithmetic is that of 64-bit
  unsigned integers: when \<^verbatim>\<open>MemTotal\<close> is absent and \<^verbatim>\<open>MemFree\<close> is \<open>n > 0\<close>, then
  \<^verbatim>\<open>MemUsed\<close> is \<open>2\<^sup>6\<^sup>4 - n\<close>.
\<close>

theorem absent_inputs_are_zero:
  assumes "proc w ''/proc/meminfo'' = Inr file"
    and "collected = memStats (scan_loop file \<lparr>memStats = Map.empty, out = stdout w\<rparr>)"
  shows "\<exists>m. fst (getMemStats w) = (Some m, None) \<and>
     m ''MemUsed'' = Some ((case collected ''MemTotal'' of None \<Rightarrow> 0 | Some t \<Rightarrow> t) -
                          (case collected ''MemFree'' of None \<Rightarrow> 0 | Some f \<Rightarrow> f)) \<and>
     m ''SwapUsed'' = Some ((case collected ''SwapTotal'' of None \<Rightarrow> 0 | Some t \<Rightarrow> t) -
                           (case collected ''SwapFree'' of None \<Rightarrow> 0 | Some f \<Rightarrow> f)) \<and>
     m ''RealFree'' = Some ((case collected ''MemFree'' of None \<Rightarrow> 0 | Some f \<Rightarrow> f) +
                           (case collected ''Buffers'' of None \<Rightarrow> 0 | Some b \<Rightarrow> b) +
                           (case collected ''Cached'' of None \<Rightarrow> 0 | Some c \<Rightarrow> c)) \<and>
     (\<forall>n. collected ''MemTotal'' = None \<and> collected ''MemFree'' = Some n \<and> 0 < n \<longrightarrow>
          (\<exists>u. m ''MemUsed'' = Some u \<and> unat u = 2 ^ 64 - unat n))"
proof -
  have wrap: "unat (0 - n) = 2 ^ 64 - unat n" if "0 < n" for n :: uint64
    using that unat_sub_if_size [of 0 n] by (simp add: word_size unat_gt_0 word_neq_0_conv)
  show ?thesis
    using assms wrap
    by (auto simp: getMemStats_def os_Open_def Let_def map_index_def)
qed

text \<open>Claim C5 on the source with the one line \<^verbatim>\<open>MemFree: 200 kB\<close>.\<close>

theorem absent_inputs_are_zero_witness:
  "\<exists>m u. fst (getMemStats \<lparr>proc = (\<lambda>p. Inr (join_lines [''MemFree: 200 kB''])), stdout = []\<rparr>) =
       (Some m, None) \<and>
     m ''MemUsed'' = Some u \<and> unat u = 2 ^ 64 - 200"
proof -
  let ?w = "\<lparr>proc = (\<lambda>p. Inr (join_lines [''MemFree: 200 kB''])), stdout = []\<rparr>"
  define collected where
    "collected = memStats (scan_loop (join_lines [''MemFree: 200 kB''])
                    \<lparr>memStats = Map.empty, out = stdout ?w\<rparr>)"
  have lines: "Scanner_lines (join_lines [''MemFree: 200 kB'']) = [''MemFree: 200 kB'']"
    by (rule Scanner_lines_join)
      (simp add: newline_def carriage_return_def MaxScanTokenSize_def)
  have entry: "line_entry ''MemFree: 200 kB'' = Some (''MemFree'', 200)"
    by code_simp
  have c: "collected = [''MemFree'' \<mapsto> 200]"
    by (simp add: collected_def memStats_scan_loop lines store_line_def entry)
  have absent: "collected ''MemTotal'' = None" and present: "collected ''MemFree'' = Some 200"
    by (simp_all add: c)
  obtain m where m: "fst (getMemStats ?w) = (Some m, None)"
    and wrap: "\<forall>n. collected ''MemTotal'' = None \<and> collected ''MemFree'' = Some n \<and> 0 < n \<longrightarrow>
          (\<exists>u. m ''MemUsed'' = Some u \<and> unat u = 2 ^ 64 - unat n)"
    using absent_inputs_are_zero [of ?w "join_lines [''MemFree: 200 kB'']" collected]
    by (auto simp: collected_def)
  from wrap absent present obtain u where "m ''MemUsed'' = Some u" "unat u = 2 ^ 64 - unat (200 :: uint64)"
    by fastforce
  with m show ?thesis by auto
qed

subsection \<open>The sources of the testable properties\<close>




subsection \<open>Determinism\<close>

text \<open>
  Claim C8. The results of the routine depend on nothing but what opening and reading
  \<^verbatim>\<open>/proc/meminfo\<close> yields: two worlds that agree there give the same mapping and the
  same error, whatever else differs. The routine leaves the resource as it was, so a
  second call right after the first returns the same results.
\<close>

theorem result_depends_on_content_only:
  "(proc w1 ''/proc/meminfo'' = proc w2 ''/proc/meminfo'' \<longrightarrow>
      fst (getMemStats w1) = fst (getMemStats w2)) \<and>
   proc (snd (getMemStats w1)) = proc w1 \<and>
   fst (getMemStats (snd (getMemStats w1))) = fst (getMemStats w1)"
proof -
  have same: "fst (getMemStats a) = fst (getMemStats b)"
    if "proc a ''/proc/meminfo'' = proc b ''/proc/meminfo''" for a b
  proof (cases "proc a ''/proc/meminfo''")
    case (Inl errno)
    then show ?thesis using that by (simp add: getMemStats_def os_Open_def)
  next
    case (Inr bytes)
    then show ?thesis
      using that getMemStats_opened [of a bytes] getMemStats_opened [of b bytes] by simp
  qed
  have kept: "proc (snd (getMemStats a)) = proc a" for a
    by (simp add: getMemStats_def os_Open_def Let_def split: sum.splits)
  show ?thesis
    using same [of w1 w2] kept [of w1] same [of "snd (getMemStats w1)" w1] by simp
qed

text \<open>Claim C8 for two worlds that differ in the other paths and in the standard output.\<close>

theorem result_depends_on_content_only_witness:
  "fst (getMemStats \<lparr>proc = (\<lambda>p. if p = ''/proc/meminfo'' then Inr ''MemFree: 5'' else Inl 2),
                    stdout = []\<rparr>) =
   fst (getMemStats \<lparr>proc = (\<lambda>p. Inr ''MemFree: 5''),
                    stdout = [NumError ''ParseUint'' ''1'' ErrRange]\<rparr>)"
  using result_depends_on_content_only
    [of "\<lparr>proc = (\<lambda>p. if p = ''/proc/meminfo'' then Inr ''MemFree: 5'' else Inl 2), stdout = []\<rparr>"
        "\<lparr>proc = (\<lambda>p. Inr ''MemFree: 5''), stdout = [NumError ''ParseUint'' ''1'' ErrRange]\<rparr>"]
  by simp

end
